theory Spec2Isabelle
  imports Main "HOL-Library.Word"
begin

section \<open>The alternative types and what the container consumes from them\<close>

text \<open>
  \<^verbatim>\<open>Variant<Ts...>\<close> is a class template. The alternative list \<open>Ts\<close> is a list of
  type names \<open>'t\<close> (already stripped of const, volatile and references), and \<open>'v\<close> is
  the universe of the values of all alternatives. Of each alternative the container
  only calls the copy constructor, the move constructor, the destructor and
  \<^verbatim>\<open>operator==\<close>; they are parameters of the model. A move constructor returns the
  object it builds and the state it leaves its argument in.
\<close>

record ('t, 'v) alternative_ops =
  copy_ctor :: "'t \<Rightarrow> 'v \<Rightarrow> 'v"
  move_ctor :: "'t \<Rightarrow> 'v \<Rightarrow> 'v \<times> 'v"
  equals :: "'t \<Rightarrow> 'v \<Rightarrow> 'v \<Rightarrow> bool"
  is_equality_comparable :: "'t \<Rightarrow> bool"
  is_trivially_destructible :: "'t \<Rightarrow> bool"

text \<open>
  An instantiation that the compiler rejects (a failed \<^verbatim>\<open>static_assert\<close>, no viable
  overload) is \<open>Ill_formed\<close>; reading or destroying an object that is not alive, or
  indexing a dispatch table out of range, is \<open>Undefined\<close>.
\<close>

datatype error = Ill_formed | Undefined

definition bind_result :: "error + 'a \<Rightarrow> ('a \<Rightarrow> error + 'b) \<Rightarrow> error + 'b" where
  "bind_result r f = (case r of Inl e \<Rightarrow> Inl e | Inr x \<Rightarrow> f x)"

section \<open>namespace \<^verbatim>\<open>variant_utils\<close>\<close>

text \<open>\<^verbatim>\<open>is_all_trivially_destructible<Ts...>\<close>: the conjunction over the list.\<close>

fun is_all_trivially_destructible :: "('t, 'v) alternative_ops \<Rightarrow> 't list \<Rightarrow> bool" where
  "is_all_trivially_destructible A [] = True"
| "is_all_trivially_destructible A (T # Ts) =
     (is_trivially_destructible A T \<and> is_all_trivially_destructible A Ts)"

text \<open>
  \<^verbatim>\<open>Position<id, U, Ts...>::pos\<close>: the position of the first occurrence of \<open>U\<close>,
  counted from \<open>id\<close>, and \<open>-1\<close> when the list is exhausted. The counter is an
  \<^verbatim>\<open>int64_t\<close>; it stays between \<open>-1\<close> and the length of the list.
\<close>

fun Position :: "int \<Rightarrow> 't \<Rightarrow> 't list \<Rightarrow> int" where
  "Position id' U [] = - 1"
| "Position id' U (T # Ts) = (if U = T then id' else Position (id' + 1) U Ts)"

definition find_idx_by_type :: "'t \<Rightarrow> 't list \<Rightarrow> int" where
  "find_idx_by_type FindT Ts = Position 0 FindT Ts"

text \<open>\<^verbatim>\<open>find_type_by_idx<id, Ts...>\<close>, with its \<^verbatim>\<open>static_assert(id <= sizeof...(Ts))\<close>.\<close>

fun find_type_by_idx :: "nat \<Rightarrow> 't list \<Rightarrow> 't option" where
  "find_type_by_idx id' [] = None"
| "find_type_by_idx 0 (Head # Ts) = Some Head"
| "find_type_by_idx (Suc id') (Head # Ts) =
     (if Suc id' \<le> length Ts then find_type_by_idx id' Ts else None)"

text \<open>
  \<^verbatim>\<open>Storage<Head, Ts...>\<close> is a union of \<^verbatim>\<open>Head value\<close> and \<^verbatim>\<open>Storage<Ts...> next\<close>
  whose constructor and destructor do nothing. The model records which member holds
  a living object: none (\<open>Raw\<close>), \<^verbatim>\<open>value\<close>, or something inside \<^verbatim>\<open>next\<close>.
\<close>

datatype 'v Storage = Raw | Value 'v | Next "'v Storage"

text \<open>\<^verbatim>\<open>get_storage_value<id>(storage)\<close>; \<open>None\<close> when no object lives in that member.\<close>

fun get_storage_value :: "nat \<Rightarrow> 'v Storage \<Rightarrow> 'v option" where
  "get_storage_value 0 (Value v) = Some v"
| "get_storage_value (Suc id') (Next s) = get_storage_value id' s"
| "get_storage_value id' s = None"

text \<open>
  Placement new at the address of member \<open>id\<close>,
  \<^verbatim>\<open>new (&get_storage_value<id>(storage)) type(x)\<close>: the union now holds the new
  object and nothing else, whatever it held before.
\<close>

fun emplace :: "nat \<Rightarrow> 'v \<Rightarrow> 'v Storage" where
  "emplace 0 x = Value x"
| "emplace (Suc id') x = Next (emplace id' x)"

text \<open>
  \<^verbatim>\<open>construct_variant_value(storage, val)\<close> walks the union until \<^verbatim>\<open>Head\<close> is the
  type of the value and constructs there; \<open>x\<close> is the object that
  \<^verbatim>\<open>U(std::forward<T>(val))\<close> builds. \<open>None\<close>: the type is not in the list.
\<close>

fun construct_variant_value :: "'t list \<Rightarrow> 't \<Rightarrow> 'v \<Rightarrow> 'v Storage option" where
  "construct_variant_value [] U x = None"
| "construct_variant_value (Head # Ts) U x =
     (if U = Head then Some (Value x)
      else map_option Next (construct_variant_value Ts U x))"

text \<open>
  \<^verbatim>\<open>destroy_variant_value<id>(storage)\<close> walks to member \<open>id\<close> and calls
  \<^verbatim>\<open>storage.value.~U()\<close> there, \<open>U\<close> the type at that position. The destructor of a
  trivially destructible type (an \<^verbatim>\<open>int\<close>) performs no action: nothing runs, and the
  member stays as it is, still readable. Any other destructor ends the life of the
  object in the member: the function returns the value that was destroyed and the
  storage, raw again. \<open>None\<close>: such a destructor is called where no object lives, or
  \<open>id\<close> is out of range.
\<close>

fun next_member :: "'v Storage \<Rightarrow> 'v Storage" where
  "next_member (Next s) = s"
| "next_member s = Raw"

fun destroy_variant_value ::
    "('t, 'v) alternative_ops \<Rightarrow> nat \<Rightarrow> 't list \<Rightarrow> 'v Storage \<Rightarrow> ('v option \<times> 'v Storage) option" where
  "destroy_variant_value A id' [] s = None"
| "destroy_variant_value A 0 (Head # Ts) s =
     (if is_trivially_destructible A Head then Some (None, s)
      else case s of Value v \<Rightarrow> Some (Some v, Raw) | _ \<Rightarrow> None)"
| "destroy_variant_value A (Suc id') (Head # Ts) s =
     (case destroy_variant_value A id' Ts (next_member s) of
        None \<Rightarrow> None
      | Some (None, s') \<Rightarrow> Some (None, s)
      | Some (Some v, s') \<Rightarrow> Some (Some v, Raw))"

section \<open>class \<^verbatim>\<open>Variant\<close>: the object, the store and the trace\<close>

record 'v Variant =
  type_idx :: int
  m_storage :: "'v Storage"

definition null_type :: int where
  "null_type = - 1"

text \<open>
  Copy and move take a second Variant by reference and the assignments compare
  \<^verbatim>\<open>this\<close> with its address, so Variant objects live in a store indexed by address.
  The trace records, in program order, every constructor and destructor call on an
  alternative (with the member index and the value) and every write to \<^verbatim>\<open>type_idx\<close>.
\<close>

type_synonym addr = nat

datatype 'v event =
    Constructed addr nat 'v
  | Destructed addr nat 'v
  | Idx_written addr int

record 'v world =
  heap :: "addr \<Rightarrow> 'v Variant"
  trace :: "'v event list"

definition write_idx :: "addr \<Rightarrow> int \<Rightarrow> 'v world \<Rightarrow> 'v world" where
  "write_idx this i w =
     w\<lparr>heap := (heap w)(this := (heap w this)\<lparr>type_idx := i\<rparr>),
       trace := trace w @ [Idx_written this i]\<rparr>"

definition placement_new :: "addr \<Rightarrow> nat \<Rightarrow> 'v \<Rightarrow> 'v world \<Rightarrow> 'v world" where
  "placement_new this id' x w =
     w\<lparr>heap := (heap w)(this := (heap w this)\<lparr>m_storage := emplace id' x\<rparr>),
       trace := trace w @ [Constructed this id' x]\<rparr>"

text \<open>
  A move constructor changes its argument: the object in member \<open>id\<close> of the source
  stays alive, in the state \<open>r\<close> the move left it in. No constructor or destructor
  runs on it.
\<close>

definition leave_moved_from :: "addr \<Rightarrow> nat \<Rightarrow> 'v \<Rightarrow> 'v world \<Rightarrow> 'v world" where
  "leave_moved_from other id' r w =
     w\<lparr>heap := (heap w)(other := (heap w other)\<lparr>m_storage := emplace id' r\<rparr>)\<rparr>"

subsection \<open>Observers\<close>

text \<open>\<^verbatim>\<open>get<idx>()\<close> and \<^verbatim>\<open>get<T>()\<close>: no check of the discriminant.\<close>

definition get :: "'t list \<Rightarrow> nat \<Rightarrow> 'v Variant \<Rightarrow> error + 'v" where
  "get Ts idx V =
     (if idx \<ge> length Ts then Inl Ill_formed
      else case get_storage_value idx (m_storage V) of
             None \<Rightarrow> Inl Undefined
           | Some v \<Rightarrow> Inr v)"

definition get_type :: "'t list \<Rightarrow> 't \<Rightarrow> 'v Variant \<Rightarrow> error + 'v" where
  "get_type Ts T V =
     (let id' = find_idx_by_type T Ts in
      if id' = - 1 then Inl Ill_formed else get Ts (nat id') V)"

text \<open>
  \<^verbatim>\<open>template <size_t id> bool holds_alternative() const { return id == type_idx; }\<close>
  compares a \<^verbatim>\<open>size_t\<close> with an \<^verbatim>\<open>int64_t\<close>. With a 64-bit \<^verbatim>\<open>size_t\<close> the usual
  arithmetic conversions turn \<^verbatim>\<open>type_idx\<close> into the unsigned type before comparing.
\<close>

definition holds_alternative :: "64 word \<Rightarrow> 'v Variant \<Rightarrow> bool" where
  "holds_alternative id' V = (id' = word_of_int (type_idx V))"

definition holds_alternative_type :: "'t list \<Rightarrow> 't \<Rightarrow> 'v Variant \<Rightarrow> bool" where
  "holds_alternative_type Ts T V =
     (let target_idx = find_idx_by_type T Ts in
      if target_idx = - 1 then False
      else type_idx V = target_idx)"

definition index :: "'v Variant \<Rightarrow> int" where
  "index V = type_idx V"

subsection \<open>The destroy table\<close>

text \<open>
  The effect of a destructor that ran on member \<open>k\<close> of the Variant at \<open>this\<close>, where
  \<open>v\<close> lived: the storage becomes \<open>s\<close> and the call is recorded. The discriminant is
  not touched. When the alternative is trivially destructible no destructor runs, and
  the store and the trace stay as they are.
\<close>

definition destructor_call :: "addr \<Rightarrow> nat \<Rightarrow> 'v \<Rightarrow> 'v Storage \<Rightarrow> 'v world \<Rightarrow> 'v world" where
  "destructor_call this k v s w =
     w\<lparr>heap := (heap w)(this := (heap w this)\<lparr>m_storage := s\<rparr>),
       trace := trace w @ [Destructed this k v]\<rparr>"

definition destroy_value_func_constructor ::
    "('t, 'v) alternative_ops \<Rightarrow> 't list \<Rightarrow> 't \<Rightarrow> addr \<Rightarrow> 'v world \<Rightarrow> error + 'v world" where
  "destroy_value_func_constructor A Ts T this w =
     (let k = nat (find_idx_by_type T Ts) in
      case destroy_variant_value A k Ts (m_storage (heap w this)) of
        None \<Rightarrow> Inl Undefined
      | Some (None, s) \<Rightarrow> Inr w
      | Some (Some v, s) \<Rightarrow> Inr (destructor_call this k v s w))"

definition destroy_func ::
    "('t, 'v) alternative_ops \<Rightarrow> 't list \<Rightarrow> (addr \<Rightarrow> 'v world \<Rightarrow> error + 'v world) list" where
  "destroy_func A Ts = map (destroy_value_func_constructor A Ts) Ts"

definition destroy ::
    "('t, 'v) alternative_ops \<Rightarrow> 't list \<Rightarrow> addr \<Rightarrow> 'v world \<Rightarrow> error + 'v world" where
  "destroy A Ts this w =
     (let i = type_idx (heap w this) in
      if i \<noteq> null_type then
        (if 0 \<le> i \<and> i < int (length Ts) then (destroy_func A Ts ! nat i) this w
         else Inl Undefined)
      else Inr w)"

subsection \<open>The copy and move tables\<close>

definition construct_from_impl ::
    "('t, 'v) alternative_ops \<Rightarrow> 't list \<Rightarrow> nat \<Rightarrow> addr \<Rightarrow> addr \<Rightarrow> 'v world \<Rightarrow> error + 'v world" where
  "construct_from_impl A Ts id' self other w =
     (case find_type_by_idx id' Ts of
        None \<Rightarrow> Inl Ill_formed
      | Some type \<Rightarrow>
          (case get Ts id' (heap w other) of
             Inl e \<Rightarrow> Inl e
           | Inr place \<Rightarrow> Inr (placement_new self id' (copy_ctor A type place) w)))"

definition construct_from_impl_move ::
    "('t, 'v) alternative_ops \<Rightarrow> 't list \<Rightarrow> nat \<Rightarrow> addr \<Rightarrow> addr \<Rightarrow> 'v world \<Rightarrow> error + 'v world" where
  "construct_from_impl_move A Ts id' self other w =
     (case find_type_by_idx id' Ts of
        None \<Rightarrow> Inl Ill_formed
      | Some type \<Rightarrow>
          (case get Ts id' (heap w other) of
             Inl e \<Rightarrow> Inl e
           | Inr src \<Rightarrow>
               (let (x, moved_from) = move_ctor A type src
                in Inr (placement_new self id' x (leave_moved_from other id' moved_from w)))))"

definition make_constructor_table ::
    "('t, 'v) alternative_ops \<Rightarrow> 't list \<Rightarrow> (addr \<Rightarrow> addr \<Rightarrow> 'v world \<Rightarrow> error + 'v world) list" where
  "make_constructor_table A Ts = map (construct_from_impl A Ts) [0..<length Ts]"

definition make_move_constructor_table ::
    "('t, 'v) alternative_ops \<Rightarrow> 't list \<Rightarrow> (addr \<Rightarrow> addr \<Rightarrow> 'v world \<Rightarrow> error + 'v world) list" where
  "make_move_constructor_table A Ts = map (construct_from_impl_move A Ts) [0..<length Ts]"

text \<open>\<^verbatim>\<open>construct_from(const Variant &)\<close> and \<^verbatim>\<open>construct_from(Variant &&)\<close>.\<close>

definition construct_from ::
    "('t, 'v) alternative_ops \<Rightarrow> 't list \<Rightarrow> addr \<Rightarrow> addr \<Rightarrow> 'v world \<Rightarrow> error + 'v world" where
  "construct_from A Ts this other w =
     (let w1 = write_idx this null_type w;
          i = type_idx (heap w1 other)
      in if i = null_type then Inr w1
         else if 0 \<le> i \<and> i < int (length Ts) then
           bind_result ((make_constructor_table A Ts ! nat i) this other w1)
             (\<lambda>w2. Inr (write_idx this (type_idx (heap w2 other)) w2))
         else Inl Undefined)"

definition construct_from_move ::
    "('t, 'v) alternative_ops \<Rightarrow> 't list \<Rightarrow> addr \<Rightarrow> addr \<Rightarrow> 'v world \<Rightarrow> error + 'v world" where
  "construct_from_move A Ts this other w =
     (let w1 = write_idx this null_type w;
          i = type_idx (heap w1 other)
      in if i = null_type then Inr w1
         else if 0 \<le> i \<and> i < int (length Ts) then
           bind_result ((make_move_constructor_table A Ts ! nat i) this other w1)
             (\<lambda>w2. Inr (write_idx this (type_idx (heap w2 other)) w2))
         else Inl Undefined)"

subsection \<open>Constructors and destructor\<close>

text \<open>
  Every constructor first runs the default member initializers: \<^verbatim>\<open>type_idx{null_type}\<close>
  and the empty \<^verbatim>\<open>Storage()\<close>.
\<close>

definition init_members :: "addr \<Rightarrow> 'v world \<Rightarrow> 'v world" where
  "init_members this w =
     w\<lparr>heap := (heap w)(this := \<lparr>type_idx = null_type, m_storage = Raw\<rparr>),
       trace := trace w @ [Idx_written this null_type]\<rparr>"

definition Variant_default :: "addr \<Rightarrow> 'v world \<Rightarrow> 'v world" where
  "Variant_default this w = init_members this w"

text \<open>
  The argument of a forwarding reference \<^verbatim>\<open>T &&val\<close> is an lvalue or an rvalue;
  \<^verbatim>\<open>U(std::forward<T>(val))\<close> copies the first and moves from the second. An
  \<open>arg\<close> is an object of its own, outside the storage of any Variant in the store,
  given by its value.
\<close>

datatype 'v arg = Lvalue 'v | Rvalue 'v

fun arg_value :: "'v arg \<Rightarrow> 'v" where
  "arg_value (Lvalue v) = v"
| "arg_value (Rvalue v) = v"

fun forward_construct :: "('t, 'v) alternative_ops \<Rightarrow> 't \<Rightarrow> 'v arg \<Rightarrow> 'v" where
  "forward_construct A U (Lvalue v) = copy_ctor A U v"
| "forward_construct A U (Rvalue v) = fst (move_ctor A U v)"

text \<open>\<^verbatim>\<open>construct_variant_value(m_storage, std::forward<T>(val))\<close> on the object at \<open>this\<close>.\<close>

definition construct_value ::
    "('t, 'v) alternative_ops \<Rightarrow> 't list \<Rightarrow> addr \<Rightarrow> 't \<Rightarrow> 'v arg \<Rightarrow> 'v world \<Rightarrow> error + 'v world" where
  "construct_value A Ts this U val w =
     (let x = forward_construct A U val in
      case construct_variant_value Ts U x of
        None \<Rightarrow> Inl Ill_formed
      | Some s \<Rightarrow>
          Inr (w\<lparr>heap := (heap w)(this := (heap w this)\<lparr>m_storage := s\<rparr>),
                 trace := trace w @ [Constructed this (nat (find_idx_by_type U Ts)) x]\<rparr>))"

text \<open>
  \<^verbatim>\<open>Variant(T &&val)\<close>, enabled only when \<open>U\<close> is found in the list. The object
  under construction holds nothing yet that \<open>val\<close> could name, and nothing is destroyed
  before \<open>val\<close> is read, so the argument is given by its value.
\<close>

definition Variant_value ::
    "('t, 'v) alternative_ops \<Rightarrow> 't list \<Rightarrow> addr \<Rightarrow> 't \<Rightarrow> 'v arg \<Rightarrow> 'v world \<Rightarrow> error + 'v world" where
  "Variant_value A Ts this U val w =
     (let idx = find_idx_by_type U Ts in
      if idx = - 1 then Inl Ill_formed
      else bind_result (construct_value A Ts this U val (init_members this w))
             (\<lambda>w1. Inr (write_idx this idx w1)))"

text \<open>\<^verbatim>\<open>Variant(const Variant &other)\<close> and \<^verbatim>\<open>Variant(Variant &&other)\<close>.\<close>

definition Variant_copy ::
    "('t, 'v) alternative_ops \<Rightarrow> 't list \<Rightarrow> addr \<Rightarrow> addr \<Rightarrow> 'v world \<Rightarrow> error + 'v world" where
  "Variant_copy A Ts this other w = construct_from A Ts this other (init_members this w)"

definition Variant_move ::
    "('t, 'v) alternative_ops \<Rightarrow> 't list \<Rightarrow> addr \<Rightarrow> addr \<Rightarrow> 'v world \<Rightarrow> error + 'v world" where
  "Variant_move A Ts this other w =
     bind_result (construct_from_move A Ts this other (init_members this w))
       (\<lambda>w1. Inr (write_idx other null_type w1))"

text \<open>\<^verbatim>\<open>~Variant()\<close>.\<close>

definition Variant_dtor ::
    "('t, 'v) alternative_ops \<Rightarrow> 't list \<Rightarrow> addr \<Rightarrow> 'v world \<Rightarrow> error + 'v world" where
  "Variant_dtor A Ts this w =
     (if \<not> is_all_trivially_destructible A Ts then destroy A Ts this w else Inr w)"

subsection \<open>Assignment\<close>

text \<open>
  \<^verbatim>\<open>operator=(T &&val)\<close> binds \<open>val\<close> to an object when it is called and reads that
  object only after \<^verbatim>\<open>destroy()\<close> has run. The object is outside every Variant
  (\<open>Outside\<close>), or it is member \<open>id\<close> of the storage of the Variant at an address,
  which may be \<^verbatim>\<open>this\<close>: \<^verbatim>\<open>v = w.get<id>()\<close> is \<open>Get\<close> and
  \<^verbatim>\<open>v = std::move(w.get<id>())\<close> is \<open>Move_get\<close>; \<open>U\<close> is then the type at \<open>id\<close>.
\<close>

datatype 'v reference = Outside "'v arg" | Get addr nat | Move_get addr nat

text \<open>
  \<^verbatim>\<open>construct_variant_value(m_storage, std::forward<T>(val))\<close> through such a
  reference: the constructor of \<open>U\<close> reads the object that the reference names in the
  store as it is at that moment, and a move leaves that object moved-from. Reading a
  member in which no object lives is \<open>Undefined\<close>.
\<close>

definition construct_value_from ::
    "('t, 'v) alternative_ops \<Rightarrow> 't list \<Rightarrow> addr \<Rightarrow> 't \<Rightarrow> 'v reference \<Rightarrow> 'v world \<Rightarrow> error + 'v world" where
  "construct_value_from A Ts this U val w =
     (case val of
        Outside a \<Rightarrow> construct_value A Ts this U a w
      | Get a id' \<Rightarrow>
          (if find_type_by_idx id' Ts \<noteq> Some U then Inl Ill_formed
           else case get_storage_value id' (m_storage (heap w a)) of
                  None \<Rightarrow> Inl Undefined
                | Some v \<Rightarrow> construct_value A Ts this U (Lvalue v) w)
      | Move_get a id' \<Rightarrow>
          (if find_type_by_idx id' Ts \<noteq> Some U then Inl Ill_formed
           else case get_storage_value id' (m_storage (heap w a)) of
                  None \<Rightarrow> Inl Undefined
                | Some v \<Rightarrow>
                    construct_value A Ts this U (Rvalue v)
                      (leave_moved_from a id' (snd (move_ctor A U v)) w)))"

text \<open>\<^verbatim>\<open>operator=(T &&val)\<close>, \<^verbatim>\<open>operator=(const Variant &)\<close>, \<^verbatim>\<open>operator=(Variant &&)\<close>.\<close>

definition assign_value ::
    "('t, 'v) alternative_ops \<Rightarrow> 't list \<Rightarrow> addr \<Rightarrow> 't \<Rightarrow> 'v reference \<Rightarrow> 'v world \<Rightarrow> error + 'v world" where
  "assign_value A Ts this U val w =
     (let idx = find_idx_by_type U Ts in
      if idx = - 1 then Inl Ill_formed
      else bind_result (destroy A Ts this w)
             (\<lambda>w1. bind_result (construct_value_from A Ts this U val (write_idx this null_type w1))
                (\<lambda>w2. Inr (write_idx this idx w2))))"

definition assign_copy ::
    "('t, 'v) alternative_ops \<Rightarrow> 't list \<Rightarrow> addr \<Rightarrow> addr \<Rightarrow> 'v world \<Rightarrow> error + 'v world" where
  "assign_copy A Ts this other w =
     (if this = other then Inr w
      else bind_result (destroy A Ts this w) (construct_from A Ts this other))"

definition assign_move ::
    "('t, 'v) alternative_ops \<Rightarrow> 't list \<Rightarrow> addr \<Rightarrow> addr \<Rightarrow> 'v world \<Rightarrow> error + 'v world" where
  "assign_move A Ts this other w =
     (if this = other then Inr w
      else bind_result (destroy A Ts this w)
             (\<lambda>w1. bind_result (construct_from_move A Ts this other w1)
                (\<lambda>w2. Inr (write_idx other null_type w2))))"

subsection \<open>Equality\<close>

definition compare_value_func_constructor ::
    "('t, 'v) alternative_ops \<Rightarrow> 't list \<Rightarrow> nat \<Rightarrow> 'v Storage \<Rightarrow> 'v Storage \<Rightarrow> error + bool" where
  "compare_value_func_constructor A Ts I self_storage other_storage =
     (case find_type_by_idx I Ts of
        None \<Rightarrow> Inl Ill_formed
      | Some type \<Rightarrow>
          if is_equality_comparable A type then
            (case (get_storage_value I self_storage, get_storage_value I other_storage) of
               (Some a, Some b) \<Rightarrow> Inr (equals A type a b)
             | _ \<Rightarrow> Inl Undefined)
          else Inr False)"

definition make_compare_table ::
    "('t, 'v) alternative_ops \<Rightarrow> 't list \<Rightarrow> ('v Storage \<Rightarrow> 'v Storage \<Rightarrow> error + bool) list" where
  "make_compare_table A Ts = map (compare_value_func_constructor A Ts) [0..<length Ts]"

text \<open>\<^verbatim>\<open>bool operator==(const Variant &other) const\<close>.\<close>

definition eq_Variant ::
    "('t, 'v) alternative_ops \<Rightarrow> 't list \<Rightarrow> 'v Variant \<Rightarrow> 'v Variant \<Rightarrow> error + bool" where
  "eq_Variant A Ts V other =
     (if \<not> list_all (is_equality_comparable A) Ts then Inl Ill_formed
      else if type_idx V \<noteq> type_idx other then Inr False
      else if type_idx V = null_type then Inr True
      else if 0 \<le> type_idx V \<and> type_idx V < int (length Ts) then
        (make_compare_table A Ts ! nat (type_idx V)) (m_storage V) (m_storage other)
      else Inl Undefined)"

text \<open>
  \<^verbatim>\<open>template <typename T> bool operator==(const T &other) const\<close>. Its
  \<^verbatim>\<open>static_assert\<close>s are checked when it is instantiated, whatever the discriminant
  is at run time: \<open>U\<close> is equality-comparable; \<^verbatim>\<open>get<U>()\<close> asserts \<open>idx != -1\<close>
  (and for \<open>idx = -1\<close> the \<^verbatim>\<open>find_type_by_idx_t<idx, Ts...>\<close> it names does not exist
  either); the type at \<open>idx\<close> is equality-comparable. A non-negative \<open>idx\<close> is
  unchanged by its conversion to \<^verbatim>\<open>size_t\<close>.
\<close>

definition eq_value ::
    "('t, 'v) alternative_ops \<Rightarrow> 't list \<Rightarrow> 'v Variant \<Rightarrow> 't \<Rightarrow> 'v \<Rightarrow> error + bool" where
  "eq_value A Ts V U other =
     (let idx = find_idx_by_type U Ts in
      if \<not> is_equality_comparable A U \<or> idx = - 1 then Inl Ill_formed
      else case find_type_by_idx (nat idx) Ts of
             None \<Rightarrow> Inl Ill_formed
           | Some type_in_variant \<Rightarrow>
               if \<not> is_equality_comparable A type_in_variant then Inl Ill_formed
               else if \<not> holds_alternative_type Ts U V then Inr False
               else (case get_type Ts U V of
                       Inl e \<Rightarrow> Inl e
                     | Inr x \<Rightarrow> Inr (equals A U x other)))"

section \<open>The states of a Variant\<close>

text \<open>
  The two kinds of state of the specification: \<open>Empty\<close>, and \<open>HoldingAlternative(i)\<close>
  with the value that lives in the storage cell.
\<close>

definition is_empty :: "'v Variant \<Rightarrow> bool" where
  "is_empty V = (type_idx V = null_type)"

definition holding :: "'t list \<Rightarrow> 'v Variant \<Rightarrow> nat \<Rightarrow> 'v \<Rightarrow> bool" where
  "holding Ts V i v =
     (i < length Ts \<and> type_idx V = int i \<and> get_storage_value i (m_storage V) = Some v)"

text \<open>A Variant in one of these states, whatever the alternative and the value.\<close>

definition well_formed :: "'t list \<Rightarrow> 'v Variant \<Rightarrow> bool" where
  "well_formed Ts V =
     (type_idx V = null_type \<or>
      (0 \<le> type_idx V \<and> type_idx V < int (length Ts) \<and>
       get_storage_value (nat (type_idx V)) (m_storage V) \<noteq> None))"

section \<open>Reading a run\<close>

text \<open>What an operation that returns leaves behind: its trace, and the object at an address.\<close>

fun trace_of :: "error + 'v world \<Rightarrow> 'v event list option" where
  "trace_of (Inr w) = Some (trace w)"
| "trace_of (Inl e) = None"

fun object_of :: "addr \<Rightarrow> error + 'v world \<Rightarrow> 'v Variant option" where
  "object_of a (Inr w) = Some (heap w a)"
| "object_of a (Inl e) = None"

text \<open>The destructor calls of a trace that ran on the storage of the Variant at \<open>a\<close>.\<close>

fun destructor_calls :: "addr \<Rightarrow> 'v event list \<Rightarrow> (nat \<times> 'v) list" where
  "destructor_calls a [] = []"
| "destructor_calls a (Destructed b k v # es) =
     (if b = a then (k, v) # destructor_calls a es else destructor_calls a es)"
| "destructor_calls a (Constructed b k v # es) = destructor_calls a es"
| "destructor_calls a (Idx_written b i # es) = destructor_calls a es"

text \<open>
  The order of the specification's data model, read off a trace: a discriminant is
  set to an index only when the value of that alternative has been constructed in the
  cell, and a destructor runs only when the discriminant of its Variant has already
  been reset to the sentinel. \<open>disc\<close> and \<open>live\<close> replay, for every address, the
  discriminant and the member in which an object lives.
\<close>

fun spec_order :: "(addr \<Rightarrow> int) \<Rightarrow> (addr \<Rightarrow> nat option) \<Rightarrow> 'v event list \<Rightarrow> bool" where
  "spec_order disc live [] = True"
| "spec_order disc live (Constructed a k v # es) = spec_order disc (live(a := Some k)) es"
| "spec_order disc live (Idx_written a i # es) =
     ((i = null_type \<or> live a = Some (nat i)) \<and> spec_order (disc(a := i)) live es)"
| "spec_order disc live (Destructed a k v # es) =
     (disc a = null_type \<and> spec_order disc (live(a := None)) es)"

definition spec_discriminant_order :: "'v event list \<Rightarrow> bool" where
  "spec_discriminant_order es = spec_order (\<lambda>a. null_type) (\<lambda>a. None) es"

text \<open>
  The order the code keeps, read off a trace in the same way. A discriminant is set
  to an index only when the value of that alternative has been constructed in the
  cell, as above. A destructor runs only while the discriminant of its Variant still
  is the index of the value it destroys, so before any reset; and a value is
  constructed in a cell only while the discriminant of its Variant is the sentinel,
  so after the reset.
\<close>

fun code_order :: "(addr \<Rightarrow> int) \<Rightarrow> (addr \<Rightarrow> nat option) \<Rightarrow> 'v event list \<Rightarrow> bool" where
  "code_order disc live [] = True"
| "code_order disc live (Constructed a k v # es) =
     (disc a = null_type \<and> code_order disc (live(a := Some k)) es)"
| "code_order disc live (Idx_written a i # es) =
     ((i = null_type \<or> live a = Some (nat i)) \<and> code_order (disc(a := i)) live es)"
| "code_order disc live (Destructed a k v # es) =
     (disc a = int k \<and> live a = Some k \<and> code_order disc (live(a := None)) es)"

text \<open>The member of a storage in which an object lives.\<close>

fun live_member :: "'v Storage \<Rightarrow> nat option" where
  "live_member Raw = None"
| "live_member (Value v) = Some 0"
| "live_member (Next s) = map_option Suc (live_member s)"

text \<open>
  An operation started in the store \<open>w\<close> keeps the order of the code when it returns,
  its trace extends the trace of \<open>w\<close>, and the events it added are in that order,
  replayed from the discriminants and the live members of \<open>w\<close>.
\<close>

definition keeps_code_order :: "'v world \<Rightarrow> error + 'v world \<Rightarrow> bool" where
  "keeps_code_order w m =
     (case m of
        Inl e \<Rightarrow> False
      | Inr w' \<Rightarrow>
          take (length (trace w)) (trace w') = trace w \<and>
          code_order (\<lambda>a. type_idx (heap w a)) (\<lambda>a. live_member (m_storage (heap w a)))
            (drop (length (trace w)) (trace w')))"

section \<open>The alternatives of \<^verbatim>\<open>main.cpp\<close>\<close>

text \<open>
  \<^verbatim>\<open>main.cpp\<close> instantiates \<^verbatim>\<open>Variant<int, std::string, Logger>\<close>. \<^verbatim>\<open>Logger\<close> has an
  \<^verbatim>\<open>id\<close>; its copy constructor copies it, its move constructor copies it and sets
  the \<^verbatim>\<open>id\<close> of its argument to \<open>-1\<close>; it has a destructor and no \<^verbatim>\<open>operator==\<close>.
  A moved-from \<^verbatim>\<open>std::string\<close> is taken to be empty.
\<close>

datatype main_type = T_int | T_string | T_Logger

datatype main_value = Int_val int | String_val string | Logger_val int

fun main_move :: "main_type \<Rightarrow> main_value \<Rightarrow> main_value \<times> main_value" where
  "main_move T (Int_val i) = (Int_val i, Int_val i)"
| "main_move T (String_val s) = (String_val s, String_val [])"
| "main_move T (Logger_val i) = (Logger_val i, Logger_val (- 1))"

definition main_ops :: "(main_type, main_value) alternative_ops" where
  "main_ops =
     \<lparr>copy_ctor = (\<lambda>T v. v),
      move_ctor = main_move,
      equals = (\<lambda>T a b. a = b),
      is_equality_comparable = (\<lambda>T. T \<noteq> T_Logger),
      is_trivially_destructible = (\<lambda>T. T = T_int)\<rparr>"

definition main_Ts :: "main_type list" where
  "main_Ts = [T_int, T_string, T_Logger]"

text \<open>A store in which no Variant has been constructed yet, and nothing has happened.\<close>

definition world0 :: "main_value world" where
  "world0 = \<lparr>heap = (\<lambda>a. \<lparr>type_idx = null_type, m_storage = Raw\<rparr>), trace = []\<rparr>"

text \<open>
  Two stores of \<^verbatim>\<open>main.cpp\<close>: after \<^verbatim>\<open>Variant<int, Logger> v(100)\<close>, and after
  \<^verbatim>\<open>Variant<int, std::string, Logger> v3(Logger(3))\<close>, each object at address 0.
\<close>

definition world_v :: "main_value world" where
  "world_v =
     \<lparr>heap = (\<lambda>a. \<lparr>type_idx = null_type, m_storage = Raw\<rparr>)
               (0 := \<lparr>type_idx = 0, m_storage = Value (Int_val 100)\<rparr>),
      trace = [Idx_written 0 null_type, Constructed 0 0 (Int_val 100), Idx_written 0 0]\<rparr>"

definition world_v3 :: "main_value world" where
  "world_v3 =
     \<lparr>heap = (\<lambda>a. \<lparr>type_idx = null_type, m_storage = Raw\<rparr>)
               (0 := \<lparr>type_idx = 2, m_storage = Next (Next (Value (Logger_val 3)))\<rparr>),
      trace = [Idx_written 0 null_type, Constructed 0 2 (Logger_val 3), Idx_written 0 2]\<rparr>"

text \<open>
  And the store with \<^verbatim>\<open>v3(Logger(3))\<close> at address 0 and \<^verbatim>\<open>v2((std::string) "hello")\<close>
  at address 1.
\<close>

definition world_v3_v2 :: "main_value world" where
  "world_v3_v2 =
     \<lparr>heap = (\<lambda>a. \<lparr>type_idx = null_type, m_storage = Raw\<rparr>)
               (0 := \<lparr>type_idx = 2, m_storage = Next (Next (Value (Logger_val 3)))\<rparr>,
                1 := \<lparr>type_idx = 1, m_storage = Next (Value (String_val ''hello''))\<rparr>),
      trace = [Idx_written 0 null_type, Constructed 0 2 (Logger_val 3), Idx_written 0 2,
               Idx_written 1 null_type, Constructed 1 1 (String_val ''hello''),
               Idx_written 1 1]\<rparr>"

section \<open>Facts about \<^verbatim>\<open>variant_utils\<close>\<close>

lemma bind_result_simps [simp]:
  "bind_result (Inr x) f = f x" "bind_result (Inl e) f = Inl e"
  by (simp_all add: bind_result_def)

lemma Position_bounds:
  "U \<in> set Ts \<Longrightarrow> k \<le> Position k U Ts \<and> Position k U Ts < k + int (length Ts)"
proof (induction Ts arbitrary: k)
  case Nil
  then show ?case by simp
next
  case (Cons T Ts)
  show ?case
  proof (cases "U = T")
    case True
    then show ?thesis by simp
  next
    case False
    with Cons.prems have "U \<in> set Ts" by simp
    from Cons.IH [OF this, of "k + 1"] False show ?thesis by simp
  qed
qed

lemma Position_notin: "U \<notin> set Ts \<Longrightarrow> Position k U Ts = - 1"
  by (induction Ts arbitrary: k) auto

lemma Position_nth:
  "distinct Ts \<Longrightarrow> i < length Ts \<Longrightarrow> Position k (Ts ! i) Ts = k + int i"
proof (induction Ts arbitrary: k i)
  case Nil
  then show ?case by simp
next
  case (Cons T Ts)
  show ?case
  proof (cases i)
    case 0
    then show ?thesis by simp
  next
    case (Suc j)
    with Cons.prems have "Ts ! j \<noteq> T" "j < length Ts" "distinct Ts" by auto
    with Cons.IH [of j "k + 1"] Suc show ?thesis by simp
  qed
qed

lemma Position_type: "U \<in> set Ts \<Longrightarrow> Ts ! nat (Position k U Ts - k) = U"
proof (induction Ts arbitrary: k)
  case Nil
  then show ?case by simp
next
  case (Cons T Ts)
  show ?case
  proof (cases "U = T")
    case True
    then show ?thesis by simp
  next
    case False
    with Cons.prems have in_tl: "U \<in> set Ts" by simp
    from Position_bounds [OF in_tl, of "k + 1"]
    have "nat (Position (k + 1) U Ts - k) = Suc (nat (Position (k + 1) U Ts - (k + 1)))"
      by linarith
    with False Cons.IH [OF in_tl, of "k + 1"] show ?thesis by simp
  qed
qed

lemma find_idx_by_type_in:
  "U \<in> set Ts \<Longrightarrow> 0 \<le> find_idx_by_type U Ts \<and> find_idx_by_type U Ts < int (length Ts)"
  using Position_bounds [of U Ts 0] by (simp add: find_idx_by_type_def)

lemma find_idx_by_type_notin: "U \<notin> set Ts \<Longrightarrow> find_idx_by_type U Ts = - 1"
  by (simp add: find_idx_by_type_def Position_notin)

lemma find_idx_by_type_nth:
  "distinct Ts \<Longrightarrow> i < length Ts \<Longrightarrow> find_idx_by_type (Ts ! i) Ts = int i"
  by (simp add: find_idx_by_type_def Position_nth)

lemma nth_find_idx_by_type: "U \<in> set Ts \<Longrightarrow> Ts ! nat (find_idx_by_type U Ts) = U"
  using Position_type [of U Ts 0] by (simp add: find_idx_by_type_def)

lemma find_type_by_idx_nth: "i < length Ts \<Longrightarrow> find_type_by_idx i Ts = Some (Ts ! i)"
proof (induction i Ts rule: find_type_by_idx.induct)
  case (1 i)
  then show ?case by simp
next
  case (2 Head Ts)
  then show ?case by simp
next
  case (3 i Head Ts)
  then show ?case by simp
qed

lemma get_storage_value_emplace: "get_storage_value i (emplace i x) = Some x"
  by (induction i) auto

lemma next_member_live:
  "get_storage_value (Suc i) s = Some v \<Longrightarrow> get_storage_value i (next_member s) = Some v"
  by (cases s) simp_all

lemma destroy_variant_value_trivial:
  "i < length Ts \<Longrightarrow> is_trivially_destructible A (Ts ! i) \<Longrightarrow>
   destroy_variant_value A i Ts s = Some (None, s)"
proof (induction i arbitrary: Ts s)
  case 0
  then show ?case by (cases Ts) simp_all
next
  case (Suc i)
  then show ?case by (cases Ts) simp_all
qed

lemma destroy_variant_value_live:
  "i < length Ts \<Longrightarrow> \<not> is_trivially_destructible A (Ts ! i) \<Longrightarrow>
   get_storage_value i s = Some v \<Longrightarrow>
   destroy_variant_value A i Ts s = Some (Some v, Raw)"
proof (induction i arbitrary: Ts s)
  case 0
  then show ?case by (cases Ts; cases s) simp_all
next
  case (Suc i)
  from Suc.prems(1) obtain T Ts' where Ts: "Ts = T # Ts'" by (cases Ts) auto
  with Suc.prems have "i < length Ts'" "\<not> is_trivially_destructible A (Ts' ! i)" by simp_all
  from Suc.IH [OF this next_member_live [OF Suc.prems(3)]] Ts show ?case by simp
qed

lemma live_member_holding: "get_storage_value i s = Some v \<Longrightarrow> live_member s = Some i"
  by (induction i s rule: get_storage_value.induct) auto

lemma live_member_emplace: "live_member (emplace i x) = Some i"
  by (induction i) auto

lemma construct_variant_value_Position:
  "U \<in> set Ts \<Longrightarrow>
   construct_variant_value Ts U x = Some (emplace (nat (Position k U Ts - k)) x)"
proof (induction Ts arbitrary: k)
  case Nil
  then show ?case by simp
next
  case (Cons T Ts)
  show ?case
  proof (cases "U = T")
    case True
    then show ?thesis by simp
  next
    case False
    with Cons.prems have in_tl: "U \<in> set Ts" by simp
    from Position_bounds [OF in_tl, of "k + 1"]
    have "nat (Position (k + 1) U Ts - k) = Suc (nat (Position (k + 1) U Ts - (k + 1)))"
      by linarith
    with False Cons.IH [OF in_tl, of "k + 1"] show ?thesis by simp
  qed
qed

lemma construct_variant_value_in:
  "U \<in> set Ts \<Longrightarrow>
   construct_variant_value Ts U x = Some (emplace (nat (find_idx_by_type U Ts)) x)"
  using construct_variant_value_Position [of U Ts x 0] by (simp add: find_idx_by_type_def)

section \<open>Facts about the operations of \<^verbatim>\<open>Variant\<close>\<close>

lemma destroy_empty:
  "type_idx (heap w this) = null_type \<Longrightarrow> destroy A Ts this w = Inr w"
  by (simp add: destroy_def)

lemma destroy_holding:
  assumes "distinct Ts" and "holding Ts (heap w this) i v"
    and "\<not> is_trivially_destructible A (Ts ! i)"
  shows "destroy A Ts this w = Inr (destructor_call this i v Raw w)"
proof -
  from assms(2) have i: "i < length Ts" and t: "type_idx (heap w this) = int i"
    and g: "get_storage_value i (m_storage (heap w this)) = Some v"
    by (simp_all add: holding_def)
  have k: "nat (find_idx_by_type (Ts ! i) Ts) = i"
    using assms(1) i by (simp add: find_idx_by_type_nth)
  have "destroy A Ts this w = destroy_value_func_constructor A Ts (Ts ! i) this w"
    using i t by (simp add: destroy_def destroy_func_def null_type_def)
  also have "\<dots> = Inr (destructor_call this i v Raw w)"
    using destroy_variant_value_live [OF i assms(3) g]
    by (simp add: destroy_value_func_constructor_def k)
  finally show ?thesis .
qed

lemma destroy_holding_trivial:
  assumes "distinct Ts" and "holding Ts (heap w this) i v"
    and "is_trivially_destructible A (Ts ! i)"
  shows "destroy A Ts this w = Inr w"
proof -
  from assms(2) have i: "i < length Ts" and t: "type_idx (heap w this) = int i"
    by (simp_all add: holding_def)
  have k: "nat (find_idx_by_type (Ts ! i) Ts) = i"
    using assms(1) i by (simp add: find_idx_by_type_nth)
  have "destroy A Ts this w = destroy_value_func_constructor A Ts (Ts ! i) this w"
    using i t by (simp add: destroy_def destroy_func_def null_type_def)
  also have "\<dots> = Inr w"
    using destroy_variant_value_trivial [OF i assms(3)]
    by (simp add: destroy_value_func_constructor_def k)
  finally show ?thesis .
qed

lemma well_formed_cases:
  assumes "well_formed Ts V"
  obtains (empty) "is_empty V" | (live) i v where "holding Ts V i v"
proof (cases "type_idx V = null_type")
  case True
  then show ?thesis using empty by (simp add: is_empty_def)
next
  case False
  with assms obtain v where
    "0 \<le> type_idx V" "type_idx V < int (length Ts)"
    "get_storage_value (nat (type_idx V)) (m_storage V) = Some v"
    by (auto simp: well_formed_def)
  then have "holding Ts V (nat (type_idx V)) v" by (simp add: holding_def)
  then show ?thesis by (rule live)
qed

lemma well_formed_empty: "is_empty V \<Longrightarrow> well_formed Ts V"
  by (simp add: well_formed_def is_empty_def)

lemma well_formed_holding: "holding Ts V i v \<Longrightarrow> well_formed Ts V"
  by (simp add: well_formed_def holding_def)

text \<open>
  \<^verbatim>\<open>destroy()\<close> on a well-formed Variant returns. It adds no event, or the one
  destructor call on the live value, made while the discriminant names that value; it
  writes no discriminant and touches no other Variant.
\<close>

lemma destroy_well_formed:
  assumes "distinct Ts" and "well_formed Ts (heap w this)"
  shows "\<exists>w1 es. destroy A Ts this w = Inr w1 \<and> trace w1 = trace w @ es \<and>
           (es = [] \<or> (\<exists>i v. es = [Destructed this i v] \<and> holding Ts (heap w this) i v \<and>
                               \<not> is_trivially_destructible A (Ts ! i))) \<and>
           (\<forall>b. type_idx (heap w1 b) = type_idx (heap w b)) \<and>
           (\<forall>b. b \<noteq> this \<longrightarrow> heap w1 b = heap w b)"
proof -
  from assms(2) show ?thesis
  proof (cases rule: well_formed_cases)
    case empty
    then have "destroy A Ts this w = Inr w" by (simp add: is_empty_def destroy_empty)
    then show ?thesis by simp
  next
    case (live i v)
    show ?thesis
    proof (cases "is_trivially_destructible A (Ts ! i)")
      case True
      from destroy_holding_trivial [OF assms(1) live True] show ?thesis by simp
    next
      case False
      let ?w1 = "destructor_call this i v Raw w"
      have "destroy A Ts this w = Inr ?w1"
        by (rule destroy_holding [OF assms(1) live False])
      moreover have "trace ?w1 = trace w @ [Destructed this i v]"
        by (simp add: destructor_call_def)
      moreover have "\<forall>b. type_idx (heap ?w1 b) = type_idx (heap w b)"
        by (simp add: destructor_call_def)
      moreover have "\<forall>b. b \<noteq> this \<longrightarrow> heap ?w1 b = heap w b"
        by (simp add: destructor_call_def)
      ultimately show ?thesis using live False by blast
    qed
  qed
qed

lemma construct_value_in:
  "U \<in> set Ts \<Longrightarrow>
   construct_value A Ts this U val w =
     Inr (placement_new this (nat (find_idx_by_type U Ts)) (forward_construct A U val) w)"
  by (simp add: construct_value_def construct_variant_value_in placement_new_def Let_def)

lemma get_holding: "holding Ts V i v \<Longrightarrow> get Ts i V = Inr v"
  by (simp add: get_def holding_def)

lemma construct_from_impl_holding:
  "holding Ts (heap w other) i v \<Longrightarrow>
   construct_from_impl A Ts i self other w = Inr (placement_new self i (copy_ctor A (Ts ! i) v) w)"
  by (simp add: construct_from_impl_def find_type_by_idx_nth get_holding holding_def)

lemma construct_from_impl_move_holding:
  "holding Ts (heap w other) i v \<Longrightarrow>
   construct_from_impl_move A Ts i self other w =
     Inr (placement_new self i (fst (move_ctor A (Ts ! i) v))
            (leave_moved_from other i (snd (move_ctor A (Ts ! i) v)) w))"
  by (simp add: construct_from_impl_move_def find_type_by_idx_nth get_holding holding_def
      split: prod.splits)


lemma heap_write_idx:
  "heap (write_idx a i w) b = (if b = a then (heap w a)\<lparr>type_idx := i\<rparr> else heap w b)"
  by (simp add: write_idx_def)

lemma trace_write_idx: "trace (write_idx a i w) = trace w @ [Idx_written a i]"
  by (simp add: write_idx_def)

lemma heap_placement_new:
  "heap (placement_new a k x w) b =
     (if b = a then (heap w a)\<lparr>m_storage := emplace k x\<rparr> else heap w b)"
  by (simp add: placement_new_def)

lemma trace_placement_new: "trace (placement_new a k x w) = trace w @ [Constructed a k x]"
  by (simp add: placement_new_def)

lemma heap_init_members:
  "heap (init_members a w) b =
     (if b = a then \<lparr>type_idx = null_type, m_storage = Raw\<rparr> else heap w b)"
  by (simp add: init_members_def)

lemma trace_init_members: "trace (init_members a w) = trace w @ [Idx_written a null_type]"
  by (simp add: init_members_def)

lemma heap_leave_moved_from:
  "heap (leave_moved_from a k r w) b =
     (if b = a then (heap w a)\<lparr>m_storage := emplace k r\<rparr> else heap w b)"
  by (simp add: leave_moved_from_def)

lemma trace_leave_moved_from: "trace (leave_moved_from a k r w) = trace w"
  by (simp add: leave_moved_from_def)

lemma heap_destructor_call:
  "heap (destructor_call a k v s w) b =
     (if b = a then (heap w a)\<lparr>m_storage := s\<rparr> else heap w b)"
  by (simp add: destructor_call_def)

lemma trace_destructor_call:
  "trace (destructor_call a k v s w) = trace w @ [Destructed a k v]"
  by (simp add: destructor_call_def)

lemmas world_simps =
  heap_write_idx trace_write_idx heap_placement_new trace_placement_new
  heap_init_members trace_init_members heap_leave_moved_from trace_leave_moved_from
  heap_destructor_call trace_destructor_call

lemma construct_from_empty:
  assumes "this \<noteq> other" and "type_idx (heap w other) = null_type"
  shows "construct_from A Ts this other w = Inr (write_idx this null_type w)"
  using assms by (simp add: construct_from_def Let_def heap_write_idx)

lemma construct_from_holding:
  assumes "this \<noteq> other" and "holding Ts (heap w other) i v"
  shows "construct_from A Ts this other w =
           Inr (write_idx this (int i)
                  (placement_new this i (copy_ctor A (Ts ! i) v)
                     (write_idx this null_type w)))"
proof -
  let ?w1 = "write_idx this null_type w"
  from assms have o1: "heap ?w1 other = heap w other" by (simp add: heap_write_idx)
  with assms(2) have h1: "holding Ts (heap ?w1 other) i v" by simp
  from assms(2) have i: "i < length Ts" and t: "type_idx (heap w other) = int i"
    by (simp_all add: holding_def)
  have "construct_from A Ts this other w =
          bind_result (construct_from_impl A Ts i this other ?w1)
            (\<lambda>w2. Inr (write_idx this (type_idx (heap w2 other)) w2))"
    using i t o1 by (simp add: construct_from_def Let_def make_constructor_table_def null_type_def)
  also have "\<dots> = Inr (write_idx this (int i)
                  (placement_new this i (copy_ctor A (Ts ! i) v) ?w1))"
    using assms(1) t o1 by (simp add: construct_from_impl_holding [OF h1] heap_placement_new)
  finally show ?thesis .
qed

lemma construct_from_move_empty:
  assumes "this \<noteq> other" and "type_idx (heap w other) = null_type"
  shows "construct_from_move A Ts this other w = Inr (write_idx this null_type w)"
  using assms by (simp add: construct_from_move_def Let_def heap_write_idx)

lemma construct_from_move_holding:
  assumes "this \<noteq> other" and "holding Ts (heap w other) i v"
  shows "construct_from_move A Ts this other w =
           Inr (write_idx this (int i)
                  (placement_new this i (fst (move_ctor A (Ts ! i) v))
                     (leave_moved_from other i (snd (move_ctor A (Ts ! i) v))
                        (write_idx this null_type w))))"
proof -
  let ?w1 = "write_idx this null_type w"
  from assms have o1: "heap ?w1 other = heap w other" by (simp add: heap_write_idx)
  with assms(2) have h1: "holding Ts (heap ?w1 other) i v" by simp
  from assms(2) have i: "i < length Ts" and t: "type_idx (heap w other) = int i"
    by (simp_all add: holding_def)
  have "construct_from_move A Ts this other w =
          bind_result (construct_from_impl_move A Ts i this other ?w1)
            (\<lambda>w2. Inr (write_idx this (type_idx (heap w2 other)) w2))"
    using i t o1
    by (simp add: construct_from_move_def Let_def make_move_constructor_table_def null_type_def)
  also have "\<dots> = Inr (write_idx this (int i)
                  (placement_new this i (fst (move_ctor A (Ts ! i) v))
                     (leave_moved_from other i (snd (move_ctor A (Ts ! i) v)) ?w1)))"
    using assms(1) t o1
    by (simp add: construct_from_impl_move_holding [OF h1] heap_placement_new
        heap_leave_moved_from)
  finally show ?thesis .
qed

lemma Variant_value_in:
  assumes "U \<in> set Ts"
  shows "Variant_value A Ts this U val w =
           Inr (write_idx this (find_idx_by_type U Ts)
                  (placement_new this (nat (find_idx_by_type U Ts)) (forward_construct A U val)
                     (init_members this w)))"
  using assms find_idx_by_type_in [OF assms]
  by (simp add: Variant_value_def Let_def construct_value_in)

lemma assign_value_after_destroy:
  assumes "U \<in> set Ts" and "destroy A Ts this w = Inr w1"
  shows "assign_value A Ts this U (Outside val) w =
           Inr (write_idx this (find_idx_by_type U Ts)
                  (placement_new this (nat (find_idx_by_type U Ts)) (forward_construct A U val)
                     (write_idx this null_type w1)))"
  using assms find_idx_by_type_in [OF assms(1)]
  by (simp add: assign_value_def Let_def construct_value_from_def construct_value_in)

lemma assign_copy_after_destroy_holding:
  assumes "this \<noteq> other" and "destroy A Ts this w = Inr w1"
    and "holding Ts (heap w1 other) i v"
  shows "assign_copy A Ts this other w =
           Inr (write_idx this (int i)
                  (placement_new this i (copy_ctor A (Ts ! i) v)
                     (write_idx this null_type w1)))"
  using assms by (simp add: assign_copy_def construct_from_holding)

lemma assign_copy_after_destroy_empty:
  assumes "this \<noteq> other" and "destroy A Ts this w = Inr w1"
    and "type_idx (heap w1 other) = null_type"
  shows "assign_copy A Ts this other w = Inr (write_idx this null_type w1)"
  using assms by (simp add: assign_copy_def construct_from_empty)

lemma assign_move_after_destroy_holding:
  assumes "this \<noteq> other" and "destroy A Ts this w = Inr w1"
    and "holding Ts (heap w1 other) i v"
  shows "assign_move A Ts this other w =
           Inr (write_idx other null_type
                  (write_idx this (int i)
                     (placement_new this i (fst (move_ctor A (Ts ! i) v))
                        (leave_moved_from other i (snd (move_ctor A (Ts ! i) v))
                           (write_idx this null_type w1)))))"
  using assms by (simp add: assign_move_def construct_from_move_holding)

lemma assign_move_after_destroy_empty:
  assumes "this \<noteq> other" and "destroy A Ts this w = Inr w1"
    and "type_idx (heap w1 other) = null_type"
  shows "assign_move A Ts this other w =
           Inr (write_idx other null_type (write_idx this null_type w1))"
  using assms by (simp add: assign_move_def construct_from_move_empty)

lemma Variant_copy_holding:
  assumes "this \<noteq> other" and "holding Ts (heap w other) i v"
  shows "Variant_copy A Ts this other w =
           Inr (write_idx this (int i)
                  (placement_new this i (copy_ctor A (Ts ! i) v)
                     (write_idx this null_type (init_members this w))))"
proof -
  from assms have "holding Ts (heap (init_members this w) other) i v"
    by (simp add: heap_init_members)
  from construct_from_holding [OF assms(1) this] show ?thesis
    by (simp add: Variant_copy_def)
qed

lemma Variant_copy_empty:
  assumes "this \<noteq> other" and "type_idx (heap w other) = null_type"
  shows "Variant_copy A Ts this other w = Inr (write_idx this null_type (init_members this w))"
proof -
  from assms have "type_idx (heap (init_members this w) other) = null_type"
    by (simp add: heap_init_members)
  from construct_from_empty [OF assms(1) this, of A Ts] show ?thesis
    by (simp add: Variant_copy_def)
qed

lemma Variant_move_holding:
  assumes "this \<noteq> other" and "holding Ts (heap w other) i v"
  shows "Variant_move A Ts this other w =
           Inr (write_idx other null_type
                  (write_idx this (int i)
                     (placement_new this i (fst (move_ctor A (Ts ! i) v))
                        (leave_moved_from other i (snd (move_ctor A (Ts ! i) v))
                           (write_idx this null_type (init_members this w))))))"
proof -
  from assms have "holding Ts (heap (init_members this w) other) i v"
    by (simp add: heap_init_members)
  from construct_from_move_holding [OF assms(1) this] show ?thesis
    by (simp add: Variant_move_def)
qed

lemma Variant_move_empty:
  assumes "this \<noteq> other" and "type_idx (heap w other) = null_type"
  shows "Variant_move A Ts this other w =
           Inr (write_idx other null_type (write_idx this null_type (init_members this w)))"
proof -
  from assms have "type_idx (heap (init_members this w) other) = null_type"
    by (simp add: heap_init_members)
  from construct_from_move_empty [OF assms(1) this, of A Ts] show ?thesis
    by (simp add: Variant_move_def)
qed

lemma is_empty_not_holding: "is_empty V \<Longrightarrow> \<not> holding Ts V i v"
  by (simp add: is_empty_def holding_def null_type_def)

lemma compare_table_holding:
  assumes "list_all (is_equality_comparable A) Ts"
    and "holding Ts V i v" and "holding Ts W i u"
  shows "(make_compare_table A Ts ! i) (m_storage V) (m_storage W) = Inr (equals A (Ts ! i) v u)"
proof -
  from assms(2,3) have i: "i < length Ts"
    and gv: "get_storage_value i (m_storage V) = Some v"
    and gw: "get_storage_value i (m_storage W) = Some u"
    by (simp_all add: holding_def)
  from assms(1) i have c: "is_equality_comparable A (Ts ! i)"
    by (simp add: list_all_length)
  show ?thesis
    using i c gv gw
    by (simp add: make_compare_table_def compare_value_func_constructor_def find_type_by_idx_nth)
qed

text \<open>The two stores of \<^verbatim>\<open>main.cpp\<close> are what the constructor produces.\<close>

lemma world_v_reached:
  "Variant_value main_ops [T_int, T_Logger] 0 T_int (Rvalue (Int_val 100)) world0 = Inr world_v"
  by (simp add: Variant_value_def construct_value_def find_idx_by_type_def Let_def
      init_members_def write_idx_def world0_def world_v_def main_ops_def)

lemma world_v3_reached:
  "Variant_value main_ops main_Ts 0 T_Logger (Rvalue (Logger_val 3)) world0 = Inr world_v3"
  by (simp add: Variant_value_def construct_value_def find_idx_by_type_def Let_def
      init_members_def write_idx_def world0_def world_v3_def main_ops_def main_Ts_def)

lemma world_v3_v2_reached:
  "Variant_value main_ops main_Ts 1 T_string (Rvalue (String_val ''hello'')) world_v3 =
     Inr world_v3_v2"
  by (simp add: Variant_value_def construct_value_def find_idx_by_type_def Let_def
      init_members_def write_idx_def world_v3_def world_v3_v2_def main_ops_def main_Ts_def
      fun_upd_twist)

lemma destructor_calls_append:
  "destructor_calls a (xs @ ys) = destructor_calls a xs @ destructor_calls a ys"
  by (induction a xs rule: destructor_calls.induct) auto

lemma Variant_dtor_empty:
  "type_idx (heap w a) = null_type \<Longrightarrow> Variant_dtor A Ts a w = Inr w"
  by (simp add: Variant_dtor_def destroy_empty)

lemma assign_value_on_empty:
  assumes "U \<in> set Ts" and "type_idx (heap w a) = null_type"
  shows "\<exists>w'. assign_value A Ts a U (Outside val) w = Inr w' \<and>
              destructor_calls a (trace w') = destructor_calls a (trace w)"
proof -
  from assign_value_after_destroy [OF assms(1) destroy_empty [OF assms(2)], of A val]
  show ?thesis by (simp add: world_simps destructor_calls_append)
qed

lemma assign_copy_on_empty:
  assumes "a \<noteq> b" and "type_idx (heap w a) = null_type" and "holding Ts (heap w b) i x"
  shows "\<exists>w'. assign_copy A Ts a b w = Inr w' \<and>
              destructor_calls a (trace w') = destructor_calls a (trace w)"
proof -
  from assign_copy_after_destroy_holding [OF assms(1) destroy_empty [OF assms(2)] assms(3), of A]
  show ?thesis by (simp add: world_simps destructor_calls_append)
qed

lemma assign_move_on_empty:
  assumes "a \<noteq> b" and "type_idx (heap w a) = null_type" and "holding Ts (heap w b) i x"
  shows "\<exists>w'. assign_move A Ts a b w = Inr w' \<and>
              destructor_calls a (trace w') = destructor_calls a (trace w)"
proof -
  from assign_move_after_destroy_holding [OF assms(1) destroy_empty [OF assms(2)] assms(3), of A]
  show ?thesis by (simp add: world_simps destructor_calls_append)
qed

lemma moved_from_state:
  fixes x r :: 'v and w1 :: "'v world"
  assumes "this \<noteq> other" and "i < length Ts"
  defines "w' \<equiv> write_idx other null_type
                  (write_idx this (int i)
                     (placement_new this i x (leave_moved_from other i r (write_idx this null_type w1))))"
  shows "type_idx (heap w' other) = null_type"
    and "get Ts i (heap w' other) = Inr r"
    and "holding Ts (heap w' this) i x"
    and "trace w' = trace w1 @ [Idx_written this null_type, Constructed this i x,
                               Idx_written this (int i), Idx_written other null_type]"
  using assms(1,2)
  by (simp_all add: w'_def world_simps get_def holding_def get_storage_value_emplace)

lemma holds_alternative_in_range:
  assumes "- 1 \<le> type_idx V" and "type_idx V < 2 ^ 63" and "uint i < 2 ^ 63"
  shows "holds_alternative i V \<longleftrightarrow> type_idx V = uint i"
proof
  assume "holds_alternative i V"
  then have "uint i = type_idx V mod 2 ^ 64"
    by (simp add: holds_alternative_def uint_word_of_int)
  show "type_idx V = uint i"
  proof (cases "type_idx V = - 1")
    case True
    with \<open>uint i = type_idx V mod 2 ^ 64\<close> assms(3) show ?thesis by simp
  next
    case False
    with assms(1,2) have "0 \<le> type_idx V" "type_idx V < 2 ^ 64" by simp_all
    with \<open>uint i = type_idx V mod 2 ^ 64\<close> show ?thesis by simp
  qed
next
  assume "type_idx V = uint i"
  then show "holds_alternative i V" by (simp add: holds_alternative_def)
qed

lemma holds_alternative_type_iff:
  "holds_alternative_type Ts T V \<longleftrightarrow> T \<in> set Ts \<and> type_idx V = find_idx_by_type T Ts"
proof (cases "T \<in> set Ts")
  case True
  from find_idx_by_type_in [OF True] show ?thesis
    using True by (simp add: holds_alternative_type_def Let_def)
next
  case False
  then show ?thesis
    by (simp add: holds_alternative_type_def Let_def find_idx_by_type_notin)
qed

section \<open>Facts about assignment of a value\<close>

text \<open>
  Assignment of an object outside the Variant, and assignment of the member the
  Variant holds itself: the destructor of that member has run when the constructor
  reads it.
\<close>

lemma assign_value_of_outside_value:
  assumes "distinct Ts" and "U \<in> set Ts" and "holding Ts (heap w this) i old"
    and "forward_construct A U val = arg_value val"
  shows "\<exists>w'. assign_value A Ts this U (Outside val) w = Inr w' \<and>
               trace w' = trace w @
                 (if is_trivially_destructible A (Ts ! i) then [] else [Destructed this i old]) @
                 [Idx_written this null_type,
                  Constructed this (nat (find_idx_by_type U Ts)) (arg_value val),
                  Idx_written this (find_idx_by_type U Ts)] \<and>
               index (heap w' this) = find_idx_by_type U Ts \<and>
               holding Ts (heap w' this) (nat (find_idx_by_type U Ts)) (arg_value val) \<and>
               get_type Ts U (heap w' this) = Inr (arg_value val)"
proof -
  let ?idx = "find_idx_by_type U Ts"
  let ?w1 = "if is_trivially_destructible A (Ts ! i) then w else destructor_call this i old Raw w"
  let ?w' = "write_idx this ?idx
               (placement_new this (nat ?idx) (forward_construct A U val)
                  (write_idx this null_type ?w1))"
  from find_idx_by_type_in [OF assms(2)]
  have range: "0 \<le> ?idx" "nat ?idx < length Ts" "?idx \<noteq> - 1" by auto
  have d: "destroy A Ts this w = Inr ?w1"
    using destroy_holding [OF assms(1,3), of A] destroy_holding_trivial [OF assms(1,3), of A]
    by simp
  have run: "assign_value A Ts this U (Outside val) w = Inr ?w'"
    by (rule assign_value_after_destroy [OF assms(2) d])
  have tr: "trace ?w' = trace w @
              (if is_trivially_destructible A (Ts ! i) then [] else [Destructed this i old]) @
              [Idx_written this null_type,
               Constructed this (nat ?idx) (arg_value val), Idx_written this ?idx]"
    using assms(4) by (simp add: world_simps)
  have idx: "index (heap ?w' this) = ?idx"
    by (simp add: index_def world_simps)
  have h: "holding Ts (heap ?w' this) (nat ?idx) (arg_value val)"
    using range assms(4) by (simp add: world_simps holding_def get_storage_value_emplace)
  have gt: "get_type Ts U (heap ?w' this) = Inr (arg_value val)"
    using get_holding [OF h] range(3) by (simp add: get_type_def Let_def)
  from run tr idx h gt show ?thesis by blast
qed

lemma assign_value_of_own_member:
  assumes "distinct Ts" and "holding Ts (heap w this) i old"
    and "\<not> is_trivially_destructible A (Ts ! i)"
  shows "assign_value A Ts this (Ts ! i) (Get this i) w = Inl Undefined"
proof -
  from assms(2) have i: "i < length Ts" by (simp add: holding_def)
  have idx: "find_idx_by_type (Ts ! i) Ts = int i"
    by (rule find_idx_by_type_nth [OF assms(1) i])
  have d: "destroy A Ts this w = Inr (destructor_call this i old Raw w)"
    by (rule destroy_holding [OF assms])
  show ?thesis
    using i by (simp add: assign_value_def idx d construct_value_from_def
        find_type_by_idx_nth world_simps)
qed

section \<open>Facts about the order of events\<close>

lemma construct_from_same:
  "construct_from A Ts this this w = Inr (write_idx this null_type w)"
  by (simp add: construct_from_def Let_def heap_write_idx)

lemma construct_from_move_same:
  "construct_from_move A Ts this this w = Inr (write_idx this null_type w)"
  by (simp add: construct_from_move_def Let_def heap_write_idx)

lemma construct_value_from_trace:
  assumes "U \<in> set Ts" and "construct_value_from A Ts this U r w = Inr w'"
  shows "\<exists>x. trace w' = trace w @ [Constructed this (nat (find_idx_by_type U Ts)) x]"
proof (cases r)
  case (Outside val)
  with assms show ?thesis
    by (auto simp: construct_value_from_def construct_value_in world_simps)
next
  case (Get a k)
  with assms show ?thesis
    by (auto simp: construct_value_from_def construct_value_in world_simps
        split: if_splits option.splits)
next
  case (Move_get a k)
  with assms show ?thesis
    by (auto simp: construct_value_from_def construct_value_in world_simps
        split: if_splits option.splits)
qed

lemma keeps_code_order_intro:
  assumes "trace w' = trace w @ es"
    and "code_order (\<lambda>a. type_idx (heap w a)) (\<lambda>a. live_member (m_storage (heap w a))) es"
  shows "keeps_code_order w (Inr w')"
  using assms by (simp add: keeps_code_order_def)

lemma keeps_code_order_after_destroy:
  assumes "es = [] \<or> (\<exists>i v. es = [Destructed this i v] \<and> holding Ts (heap w this) i v \<and>
                              \<not> is_trivially_destructible A (Ts ! i))"
    and "\<And>d l. code_order d l suffix"
    and "trace w' = trace w @ es @ suffix"
  shows "keeps_code_order w (Inr w')"
proof (rule keeps_code_order_intro)
  show "trace w' = trace w @ (es @ suffix)" using assms(3) by simp
  from assms(1)
  show "code_order (\<lambda>a. type_idx (heap w a)) (\<lambda>a. live_member (m_storage (heap w a)))
          (es @ suffix)"
  proof
    assume "es = []"
    with assms(2) show ?thesis by simp
  next
    assume "\<exists>i v. es = [Destructed this i v] \<and> holding Ts (heap w this) i v \<and>
                  \<not> is_trivially_destructible A (Ts ! i)"
    then obtain i v where es: "es = [Destructed this i v]"
      and h: "holding Ts (heap w this) i v" by blast
    from h have "type_idx (heap w this) = int i"
      "live_member (m_storage (heap w this)) = Some i"
      by (simp_all add: holding_def live_member_holding)
    with es assms(2) show ?thesis by simp
  qed
qed

lemma code_order_construct:
  "code_order d l [Idx_written a null_type, Constructed a k x, Idx_written a (int k)]"
  by simp

lemma code_order_construct_clear:
  "code_order d l [Idx_written a null_type, Constructed a k x, Idx_written a (int k),
                   Idx_written b null_type]"
  by simp

lemma code_order_resets:
  "code_order d l [Idx_written a null_type]"
  "code_order d l [Idx_written a null_type, Idx_written b null_type]"
  by simp_all

lemma Variant_default_keeps_code_order:
  "keeps_code_order w (Inr (Variant_default this w))"
  by (rule keeps_code_order_intro [where es = "[Idx_written this null_type]"])
     (simp_all add: Variant_default_def world_simps)

lemma Variant_value_keeps_code_order:
  assumes "U \<in> set Ts"
  shows "keeps_code_order w (Variant_value A Ts this U val w)"
proof -
  let ?j = "nat (find_idx_by_type U Ts)"
  from find_idx_by_type_in [OF assms] have idx: "int ?j = find_idx_by_type U Ts" by simp
  have tr: "trace (write_idx this (find_idx_by_type U Ts)
                     (placement_new this ?j (forward_construct A U val) (init_members this w))) =
            trace w @
              [Idx_written this null_type, Constructed this ?j (forward_construct A U val),
               Idx_written this (int ?j)]"
    unfolding idx by (simp add: world_simps)
  from keeps_code_order_intro [OF tr code_order_construct] show ?thesis
    unfolding Variant_value_in [OF assms] .
qed

lemma Variant_copy_keeps_code_order:
  assumes "well_formed Ts (heap w other)"
  shows "keeps_code_order w (Variant_copy A Ts this other w)"
proof (cases "this = other")
  case True
  show ?thesis
    unfolding Variant_copy_def True construct_from_same
    by (rule keeps_code_order_intro
          [where es = "[Idx_written other null_type, Idx_written other null_type]"])
       (simp_all add: world_simps)
next
  case False
  from assms show ?thesis
  proof (cases rule: well_formed_cases)
    case empty
    then have e: "type_idx (heap w other) = null_type" by (simp add: is_empty_def)
    show ?thesis
      unfolding Variant_copy_empty [OF False e]
      by (rule keeps_code_order_intro
            [where es = "[Idx_written this null_type, Idx_written this null_type]"])
         (simp_all add: world_simps)
  next
    case (live k y)
    show ?thesis
      unfolding Variant_copy_holding [OF False live]
      by (rule keeps_code_order_intro
            [where es = "[Idx_written this null_type, Idx_written this null_type,
                          Constructed this k (copy_ctor A (Ts ! k) y),
                          Idx_written this (int k)]"])
         (simp_all add: world_simps)
  qed
qed

lemma Variant_move_keeps_code_order:
  assumes "well_formed Ts (heap w other)"
  shows "keeps_code_order w (Variant_move A Ts this other w)"
proof (cases "this = other")
  case True
  show ?thesis
    unfolding Variant_move_def True construct_from_move_same bind_result_simps
    by (rule keeps_code_order_intro
          [where es = "[Idx_written other null_type, Idx_written other null_type,
                        Idx_written other null_type]"])
       (simp_all add: world_simps)
next
  case False
  from assms show ?thesis
  proof (cases rule: well_formed_cases)
    case empty
    then have e: "type_idx (heap w other) = null_type" by (simp add: is_empty_def)
    show ?thesis
      unfolding Variant_move_empty [OF False e]
      by (rule keeps_code_order_intro
            [where es = "[Idx_written this null_type, Idx_written this null_type,
                          Idx_written other null_type]"])
         (simp_all add: world_simps)
  next
    case (live k y)
    show ?thesis
      unfolding Variant_move_holding [OF False live]
      by (rule keeps_code_order_intro
            [where es = "[Idx_written this null_type, Idx_written this null_type,
                          Constructed this k (fst (move_ctor A (Ts ! k) y)),
                          Idx_written this (int k), Idx_written other null_type]"])
         (simp_all add: world_simps)
  qed
qed

lemma assign_value_returned_keeps_code_order:
  assumes "distinct Ts" and "well_formed Ts (heap w this)"
    and "assign_value A Ts this U r w = Inr w'"
  shows "keeps_code_order w (Inr w')"
proof -
  let ?idx = "find_idx_by_type U Ts" and ?j = "nat (find_idx_by_type U Ts)"
  from assms(3) have "?idx \<noteq> - 1"
    by (auto simp: assign_value_def Let_def split: if_splits)
  with find_idx_by_type_notin [of U Ts] have U: "U \<in> set Ts" by blast
  from find_idx_by_type_in [OF U] have idx: "?idx = int ?j" by simp
  from destroy_well_formed [OF assms(1,2), of A]
  obtain w1 es where d: "destroy A Ts this w = Inr w1"
    and tr1: "trace w1 = trace w @ es"
    and es: "es = [] \<or> (\<exists>i v. es = [Destructed this i v] \<and> holding Ts (heap w this) i v \<and>
                              \<not> is_trivially_destructible A (Ts ! i))"
    by blast
  from assms(3) \<open>?idx \<noteq> - 1\<close> obtain w2
    where c: "construct_value_from A Ts this U r (write_idx this null_type w1) = Inr w2"
      and w': "w' = write_idx this ?idx w2"
    by (auto simp: assign_value_def Let_def d bind_result_def split: sum.splits)
  from construct_value_from_trace [OF U c]
  obtain x where tr2: "trace w2 = trace (write_idx this null_type w1) @ [Constructed this ?j x]"
    by blast
  have tr: "trace w' = trace w @ es @
              [Idx_written this null_type, Constructed this ?j x, Idx_written this (int ?j)]"
    using tr1 tr2 w' idx by (simp add: world_simps)
  show ?thesis
    by (rule keeps_code_order_after_destroy [OF es code_order_construct tr])
qed

lemma assign_value_keeps_code_order:
  assumes "distinct Ts" and "U \<in> set Ts" and "well_formed Ts (heap w this)"
  shows "keeps_code_order w (assign_value A Ts this U (Outside val) w)"
proof -
  from destroy_well_formed [OF assms(1,3), of A]
  obtain w1 where d: "destroy A Ts this w = Inr w1" by blast
  from assign_value_after_destroy [OF assms(2) d, where val = val]
  obtain w' where run: "assign_value A Ts this U (Outside val) w = Inr w'" by blast
  from assign_value_returned_keeps_code_order [OF assms(1,3) run] run show ?thesis by simp
qed

lemma assign_copy_keeps_code_order:
  assumes "distinct Ts" and "well_formed Ts (heap w this)" and "well_formed Ts (heap w other)"
  shows "keeps_code_order w (assign_copy A Ts this other w)"
proof (cases "this = other")
  case True
  then show ?thesis
    by (simp add: assign_copy_def keeps_code_order_def)
next
  case False
  from destroy_well_formed [OF assms(1,2), of A]
  obtain w1 es where d: "destroy A Ts this w = Inr w1"
    and tr1: "trace w1 = trace w @ es"
    and es: "es = [] \<or> (\<exists>i v. es = [Destructed this i v] \<and> holding Ts (heap w this) i v \<and>
                              \<not> is_trivially_destructible A (Ts ! i))"
    and frame: "\<forall>b. b \<noteq> this \<longrightarrow> heap w1 b = heap w b"
    by blast
  from frame False have same: "heap w1 other = heap w other" by simp
  from assms(3) show ?thesis
  proof (cases rule: well_formed_cases)
    case empty
    with same have e: "type_idx (heap w1 other) = null_type" by (simp add: is_empty_def)
    show ?thesis
      unfolding assign_copy_after_destroy_empty [OF False d e]
      by (rule keeps_code_order_after_destroy [OF es code_order_resets(1)])
         (simp add: world_simps tr1)
  next
    case (live k y)
    with same have h: "holding Ts (heap w1 other) k y" by simp
    show ?thesis
      unfolding assign_copy_after_destroy_holding [OF False d h]
      by (rule keeps_code_order_after_destroy [OF es code_order_construct])
         (simp add: world_simps tr1)
  qed
qed

lemma assign_move_keeps_code_order:
  assumes "distinct Ts" and "well_formed Ts (heap w this)" and "well_formed Ts (heap w other)"
  shows "keeps_code_order w (assign_move A Ts this other w)"
proof (cases "this = other")
  case True
  then show ?thesis
    by (simp add: assign_move_def keeps_code_order_def)
next
  case False
  from destroy_well_formed [OF assms(1,2), of A]
  obtain w1 es where d: "destroy A Ts this w = Inr w1"
    and tr1: "trace w1 = trace w @ es"
    and es: "es = [] \<or> (\<exists>i v. es = [Destructed this i v] \<and> holding Ts (heap w this) i v \<and>
                              \<not> is_trivially_destructible A (Ts ! i))"
    and frame: "\<forall>b. b \<noteq> this \<longrightarrow> heap w1 b = heap w b"
    by blast
  from frame False have same: "heap w1 other = heap w other" by simp
  from assms(3) show ?thesis
  proof (cases rule: well_formed_cases)
    case empty
    with same have e: "type_idx (heap w1 other) = null_type" by (simp add: is_empty_def)
    show ?thesis
      unfolding assign_move_after_destroy_empty [OF False d e]
      by (rule keeps_code_order_after_destroy [OF es code_order_resets(2)])
         (simp add: world_simps tr1)
  next
    case (live k y)
    with same have h: "holding Ts (heap w1 other) k y" by simp
    show ?thesis
      unfolding assign_move_after_destroy_holding [OF False d h]
      by (rule keeps_code_order_after_destroy [OF es code_order_construct_clear])
         (simp add: world_simps tr1)
  qed
qed

lemma Variant_dtor_keeps_code_order:
  assumes "distinct Ts" and "well_formed Ts (heap w this)"
  shows "keeps_code_order w (Variant_dtor A Ts this w)"
proof (cases "is_all_trivially_destructible A Ts")
  case True
  then show ?thesis by (simp add: Variant_dtor_def keeps_code_order_def)
next
  case False
  from destroy_well_formed [OF assms, of A]
  obtain w1 es where d: "destroy A Ts this w = Inr w1"
    and tr1: "trace w1 = trace w @ es"
    and es: "es = [] \<or> (\<exists>i v. es = [Destructed this i v] \<and> holding Ts (heap w this) i v \<and>
                              \<not> is_trivially_destructible A (Ts ! i))"
    by blast
  have "code_order d l []" for d :: "addr \<Rightarrow> int" and l by simp
  from keeps_code_order_after_destroy [OF es this, where w' = w1] tr1 False d show ?thesis
    by (simp add: Variant_dtor_def)
qed

section \<open>Construction from a value\<close>

text \<open>
  Claim C2. For every alternative type \<open>U\<close> of the list and every value of that type,
  \<^verbatim>\<open>Variant(val)\<close> succeeds, \<^verbatim>\<open>index()\<close> is \<open>index_of(U)\<close>, which is the position of
  \<open>U\<close> in the list, and \<^verbatim>\<open>get<index_of(U)>()\<close> and \<^verbatim>\<open>get<U>()\<close> return the value: the
  object that the constructor of \<open>U\<close> built from the argument, which equals the
  argument for every type whose copy and move constructors preserve the value.
\<close>

theorem Variant_value_index_and_get:
  assumes "U \<in> set Ts" and "forward_construct A U val = arg_value val"
  shows "\<exists>w'. Variant_value A Ts this U val w = Inr w' \<and>
               index (heap w' this) = find_idx_by_type U Ts \<and>
               0 \<le> find_idx_by_type U Ts \<and>
               Ts ! nat (find_idx_by_type U Ts) = U \<and>
               get Ts (nat (find_idx_by_type U Ts)) (heap w' this) = Inr (arg_value val) \<and>
               get_type Ts U (heap w' this) = Inr (arg_value val)"
proof -
  let ?idx = "find_idx_by_type U Ts"
  let ?w' = "write_idx this ?idx
               (placement_new this (nat ?idx) (forward_construct A U val) (init_members this w))"
  from find_idx_by_type_in [OF assms(1)]
  have range: "0 \<le> ?idx" "nat ?idx < length Ts" "?idx \<noteq> - 1" by auto
  have run: "Variant_value A Ts this U val w = Inr ?w'"
    by (rule Variant_value_in [OF assms(1)])
  have idx: "index (heap ?w' this) = ?idx"
    by (simp add: index_def world_simps)
  have g: "get Ts (nat ?idx) (heap ?w' this) = Inr (arg_value val)"
    using range(2) assms(2) by (simp add: world_simps get_def get_storage_value_emplace)
  have gt: "get_type Ts U (heap ?w' this) = Inr (arg_value val)"
    using g range(3) by (simp add: get_type_def Let_def)
  from run idx range(1) nth_find_idx_by_type [OF assms(1)] g gt show ?thesis by blast
qed

text \<open>\<^verbatim>\<open>Variant<int, std::string, Logger> v2((std::string) "hello")\<close> of \<^verbatim>\<open>main.cpp\<close>.\<close>

theorem Variant_value_index_and_get_witness:
  "\<exists>w'. Variant_value main_ops main_Ts 0 T_string (Rvalue (String_val ''hello'')) world0 = Inr w' \<and>
        index (heap w' 0) = 1 \<and>
        get main_Ts 1 (heap w' 0) = Inr (String_val ''hello'') \<and>
        get_type main_Ts T_string (heap w' 0) = Inr (String_val ''hello'')"
proof -
  have idx: "find_idx_by_type T_string main_Ts = 1"
    by (simp add: find_idx_by_type_def main_Ts_def)
  have "T_string \<in> set main_Ts" by (simp add: main_Ts_def)
  moreover have "forward_construct main_ops T_string (Rvalue (String_val ''hello''))
                   = arg_value (Rvalue (String_val ''hello''))"
    by (simp add: main_ops_def)
  ultimately show ?thesis
    using Variant_value_index_and_get [of T_string main_Ts main_ops
        "Rvalue (String_val ''hello'')" 0 world0]
    by (auto simp: idx)
qed

section \<open>Self-assignment\<close>

text \<open>
  Claim C7. Copy-assigning or move-assigning a Variant to itself returns at once: the
  store and the trace are the ones before the call, so the discriminant and the held
  value are unchanged and no destructor has run.
\<close>

theorem self_assignment_is_noop:
  "assign_copy A Ts this this w = Inr w \<and> assign_move A Ts this this w = Inr w"
  by (simp add: assign_copy_def assign_move_def)

section \<open>Assignment of a value\<close>

text \<open>
  Claim C4 says that assigning a value \<open>v\<close> of an alternative type to a Variant that
  holds a live alternative leaves the Variant holding \<open>v\<close>, also when the type is the
  one already held. \<^verbatim>\<open>v2 = v2.get<std::string>()\<close> on the Variant of \<^verbatim>\<open>main.cpp\<close>
  that holds \<^verbatim>\<open>"hello"\<close>: before the call \<^verbatim>\<open>get<1>()\<close> is \<^verbatim>\<open>"hello"\<close>; \<^verbatim>\<open>operator=\<close>
  first calls \<^verbatim>\<open>destroy()\<close>, after which no string lives in the cell, and then
  constructs the new string from its parameter, which names the destroyed one. The
  assignment has no defined result. The lemma \<open>assign_value_of_own_member\<close> above says
  so for every alternative that is not trivially destructible, and
  \<open>assign_value_of_outside_value\<close> gives the claim for every object outside the
  Variant: the held value is destroyed once (no destructor runs when it is trivially
  destructible), then the discriminant is reset, the new value constructed and the
  discriminant set to \<open>index_of(U)\<close>.
\<close>

theorem assign_value_of_own_string_reads_destroyed_object:
  "get main_Ts 1 (heap world_v3_v2 1) = Inr (String_val ''hello'') \<and>
   object_of 1 (destroy main_ops main_Ts 1 world_v3_v2) = Some \<lparr>type_idx = 1, m_storage = Raw\<rparr> \<and>
   assign_value main_ops main_Ts 1 T_string (Get 1 1) world_v3_v2 = Inl Undefined"
proof -
  have g: "get main_Ts 1 (heap world_v3_v2 1) = Inr (String_val ''hello'')"
    by (simp add: get_def main_Ts_def world_v3_v2_def)
  have d: "destroy main_ops main_Ts 1 world_v3_v2 =
             Inr (destructor_call 1 1 (String_val ''hello'') Raw world_v3_v2)"
    by (simp add: destroy_def destroy_func_def destroy_value_func_constructor_def
        find_idx_by_type_def main_Ts_def main_ops_def world_v3_v2_def null_type_def)
  have obj: "object_of 1 (destroy main_ops main_Ts 1 world_v3_v2) =
               Some \<lparr>type_idx = 1, m_storage = Raw\<rparr>"
    unfolding d by (simp add: world_simps world_v3_v2_def)
  have run: "assign_value main_ops main_Ts 1 T_string (Get 1 1) world_v3_v2 = Inl Undefined"
    unfolding assign_value_def d
    by (simp add: construct_value_from_def world_simps find_idx_by_type_def main_Ts_def)
  from g obj run show ?thesis by simp
qed

section \<open>Move construction\<close>

text \<open>
  Claim C3. Move-constructing a Variant at \<open>this\<close> from a different Variant \<open>other\<close>:
  when \<open>other\<close> holds alternative \<open>i\<close> with value \<open>v\<close> (and the move constructor of that
  alternative hands the value over), the new Variant has the discriminant \<open>other\<close> had
  and holds \<open>v\<close>, and \<open>other\<close> is left empty, its \<^verbatim>\<open>index()\<close> the sentinel; when
  \<open>other\<close> is empty, both are empty afterwards.
\<close>

theorem Variant_move_takes_over:
  assumes "this \<noteq> other"
  shows "(holding Ts (heap w other) i v \<and> fst (move_ctor A (Ts ! i) v) = v \<longrightarrow>
            (\<exists>w'. Variant_move A Ts this other w = Inr w' \<and>
                   index (heap w' this) = index (heap w other) \<and>
                   holding Ts (heap w' this) i v \<and>
                   get Ts i (heap w' this) = Inr v \<and>
                   is_empty (heap w' other) \<and>
                   index (heap w' other) = null_type)) \<and>
         (is_empty (heap w other) \<longrightarrow>
            (\<exists>w'. Variant_move A Ts this other w = Inr w' \<and>
                   is_empty (heap w' this) \<and> is_empty (heap w' other)))"
proof (intro conjI impI)
  assume live: "holding Ts (heap w other) i v \<and> fst (move_ctor A (Ts ! i) v) = v"
  then have h: "holding Ts (heap w other) i v" and mv: "fst (move_ctor A (Ts ! i) v) = v"
    by simp_all
  from h have i: "i < length Ts" and t: "type_idx (heap w other) = int i"
    by (simp_all add: holding_def)
  let ?w' = "write_idx other null_type
               (write_idx this (int i)
                  (placement_new this i (fst (move_ctor A (Ts ! i) v))
                     (leave_moved_from other i (snd (move_ctor A (Ts ! i) v))
                        (write_idx this null_type (init_members this w)))))"
  have run: "Variant_move A Ts this other w = Inr ?w'"
    by (rule Variant_move_holding [OF assms h])
  have idx: "index (heap ?w' this) = index (heap w other)"
    using assms t by (simp add: index_def world_simps)
  have h': "holding Ts (heap ?w' this) i v"
    using assms i mv by (simp add: world_simps holding_def get_storage_value_emplace)
  have src: "is_empty (heap ?w' other)" "index (heap ?w' other) = null_type"
    by (simp_all add: is_empty_def index_def world_simps)
  from run idx h' get_holding [OF h'] src
  show "\<exists>w'. Variant_move A Ts this other w = Inr w' \<and>
             index (heap w' this) = index (heap w other) \<and>
             holding Ts (heap w' this) i v \<and>
             get Ts i (heap w' this) = Inr v \<and>
             is_empty (heap w' other) \<and>
             index (heap w' other) = null_type"
    by blast
next
  assume "is_empty (heap w other)"
  then have e: "type_idx (heap w other) = null_type" by (simp add: is_empty_def)
  let ?w' = "write_idx other null_type (write_idx this null_type (init_members this w))"
  have run: "Variant_move A Ts this other w = Inr ?w'"
    by (rule Variant_move_empty [OF assms e])
  have "is_empty (heap ?w' this)" "is_empty (heap ?w' other)"
    using assms by (simp_all add: is_empty_def world_simps)
  with run
  show "\<exists>w'. Variant_move A Ts this other w = Inr w' \<and>
             is_empty (heap w' this) \<and> is_empty (heap w' other)"
    by blast
qed

text \<open>\<^verbatim>\<open>Variant<int, std::string, Logger> v5 = std::move(v3);\<close> of \<^verbatim>\<open>main.cpp\<close>, and a move from an empty Variant.\<close>

theorem Variant_move_takes_over_witness:
  "(\<exists>w'. Variant_move main_ops main_Ts 1 0 world_v3 = Inr w' \<and>
         index (heap w' 1) = 2 \<and>
         get main_Ts 2 (heap w' 1) = Inr (Logger_val 3) \<and>
         index (heap w' 0) = - 1) \<and>
   (\<exists>w'. Variant_move main_ops main_Ts 1 0 world0 = Inr w' \<and>
         is_empty (heap w' 1) \<and> is_empty (heap w' 0))"
proof -
  have ne: "(1::nat) \<noteq> 0" by simp
  have h: "holding main_Ts (heap world_v3 0) 2 (Logger_val 3) \<and>
           fst (move_ctor main_ops (main_Ts ! 2) (Logger_val 3)) = Logger_val 3"
    by (simp add: holding_def world_v3_def main_Ts_def main_ops_def eval_nat_numeral)
  have e: "is_empty (heap world0 0)"
    by (simp add: is_empty_def world0_def)
  have i3: "index (heap world_v3 0) = 2"
    by (simp add: index_def world_v3_def)
  from Variant_move_takes_over [OF ne, of main_Ts world_v3 2 "Logger_val 3" main_ops] h
  have live: "\<exists>w'. Variant_move main_ops main_Ts 1 0 world_v3 = Inr w' \<and>
         index (heap w' 1) = 2 \<and>
         get main_Ts 2 (heap w' 1) = Inr (Logger_val 3) \<and>
         index (heap w' 0) = - 1"
    by (auto simp: i3 null_type_def)
  from Variant_move_takes_over [OF ne, of main_Ts world0 2 "Logger_val 3" main_ops] e
  have "\<exists>w'. Variant_move main_ops main_Ts 1 0 world0 = Inr w' \<and>
         is_empty (heap w' 1) \<and> is_empty (heap w' 0)"
    by auto
  with live show ?thesis by simp
qed

section \<open>Copy construction\<close>

text \<open>
  Claim C5. Copy-constructing a Variant at \<open>this\<close> from a different Variant \<open>other\<close>:
  from an empty source the result is empty and its cell raw. From a source that holds
  alternative \<open>i\<close> with value \<open>v\<close> the result has the source's discriminant and holds,
  in its own cell, the object that the copy constructor of that alternative built
  from \<open>v\<close>, by the one constructor call of the trace; it is equal to \<open>v\<close> whenever
  that copy constructor yields an equal value. The source is unchanged, and it still
  holds \<open>v\<close> after any value has been assigned to the copy.
\<close>

theorem Variant_copy_is_independent_copy:
  assumes "this \<noteq> other" and "distinct Ts"
  shows "(is_empty (heap w other) \<longrightarrow>
            (\<exists>w'. Variant_copy A Ts this other w = Inr w' \<and>
                   is_empty (heap w' this) \<and>
                   m_storage (heap w' this) = Raw \<and>
                   trace w' = trace w @ [Idx_written this null_type, Idx_written this null_type] \<and>
                   heap w' other = heap w other)) \<and>
         (holding Ts (heap w other) i v \<longrightarrow>
            (\<exists>w'. Variant_copy A Ts this other w = Inr w' \<and>
                   index (heap w' this) = index (heap w other) \<and>
                   holding Ts (heap w' this) i (copy_ctor A (Ts ! i) v) \<and>
                   get Ts i (heap w' this) = Inr (copy_ctor A (Ts ! i) v) \<and>
                   (copy_ctor A (Ts ! i) v = v \<longrightarrow> get Ts i (heap w' this) = Inr v) \<and>
                   m_storage (heap w' this) = emplace i (copy_ctor A (Ts ! i) v) \<and>
                   trace w' = trace w @
                     [Idx_written this null_type, Idx_written this null_type,
                      Constructed this i (copy_ctor A (Ts ! i) v), Idx_written this (int i)] \<and>
                   heap w' other = heap w other \<and>
                   (\<forall>U val. U \<in> set Ts \<longrightarrow>
                      (\<exists>w''. assign_value A Ts this U (Outside val) w' = Inr w'' \<and>
                             holding Ts (heap w'' other) i v))))"
proof (intro conjI impI)
  assume "is_empty (heap w other)"
  then have e: "type_idx (heap w other) = null_type" by (simp add: is_empty_def)
  let ?w' = "write_idx this null_type (init_members this w)"
  have run: "Variant_copy A Ts this other w = Inr ?w'"
    by (rule Variant_copy_empty [OF assms(1) e])
  have "is_empty (heap ?w' this)" "m_storage (heap ?w' this) = Raw"
    "trace ?w' = trace w @ [Idx_written this null_type, Idx_written this null_type]"
    "heap ?w' other = heap w other"
    using assms(1) by (simp_all add: is_empty_def world_simps)
  with run
  show "\<exists>w'. Variant_copy A Ts this other w = Inr w' \<and>
             is_empty (heap w' this) \<and>
             m_storage (heap w' this) = Raw \<and>
             trace w' = trace w @ [Idx_written this null_type, Idx_written this null_type] \<and>
             heap w' other = heap w other"
    by blast
next
  assume h: "holding Ts (heap w other) i v"
  then have i: "i < length Ts" and t: "type_idx (heap w other) = int i"
    by (simp_all add: holding_def)
  let ?c = "copy_ctor A (Ts ! i) v"
  let ?w' = "write_idx this (int i)
               (placement_new this i ?c (write_idx this null_type (init_members this w)))"
  have run: "Variant_copy A Ts this other w = Inr ?w'"
    by (rule Variant_copy_holding [OF assms(1) h])
  have idx: "index (heap ?w' this) = index (heap w other)"
    using t by (simp add: index_def world_simps)
  have h': "holding Ts (heap ?w' this) i ?c"
    using i by (simp add: world_simps holding_def get_storage_value_emplace)
  have eq: "?c = v \<longrightarrow> get Ts i (heap ?w' this) = Inr v"
  proof
    assume same: "?c = v"
    have "get Ts i (heap ?w' this) = Inr ?c" by (rule get_holding [OF h'])
    also from same have "Inr ?c = (Inr v :: error + 'b)" by (rule arg_cong)
    finally show "get Ts i (heap ?w' this) = Inr v" .
  qed
  have st: "m_storage (heap ?w' this) = emplace i ?c"
    by (simp add: world_simps)
  have tr: "trace ?w' = trace w @
              [Idx_written this null_type, Idx_written this null_type,
               Constructed this i ?c, Idx_written this (int i)]"
    by (simp add: world_simps)
  have src: "heap ?w' other = heap w other"
    using assms(1) by (simp add: world_simps)
  have indep: "\<exists>w''. assign_value A Ts this U (Outside val) ?w' = Inr w'' \<and>
                     holding Ts (heap w'' other) i v"
    if U: "U \<in> set Ts" for U val
  proof -
    from destroy_well_formed [OF assms(2) well_formed_holding [OF h'], of A]
    obtain w1 where d: "destroy A Ts this ?w' = Inr w1"
      and frame: "\<forall>b. b \<noteq> this \<longrightarrow> heap w1 b = heap ?w' b"
      by blast
    let ?w'' = "write_idx this (find_idx_by_type U Ts)
                  (placement_new this (nat (find_idx_by_type U Ts)) (forward_construct A U val)
                     (write_idx this null_type w1))"
    have "assign_value A Ts this U (Outside val) ?w' = Inr ?w''"
      by (rule assign_value_after_destroy [OF U d])
    moreover have "heap ?w'' other = heap w other"
      using assms(1) frame src by (simp add: world_simps)
    ultimately show ?thesis using h by auto
  qed
  from run idx h' get_holding [OF h'] eq st tr src indep
  show "\<exists>w'. Variant_copy A Ts this other w = Inr w' \<and>
             index (heap w' this) = index (heap w other) \<and>
             holding Ts (heap w' this) i ?c \<and>
             get Ts i (heap w' this) = Inr ?c \<and>
             (?c = v \<longrightarrow> get Ts i (heap w' this) = Inr v) \<and>
             m_storage (heap w' this) = emplace i ?c \<and>
             trace w' = trace w @
               [Idx_written this null_type, Idx_written this null_type,
                Constructed this i ?c, Idx_written this (int i)] \<and>
             heap w' other = heap w other \<and>
             (\<forall>U val. U \<in> set Ts \<longrightarrow>
                (\<exists>w''. assign_value A Ts this U (Outside val) w' = Inr w'' \<and>
                       holding Ts (heap w'' other) i v))"
    by blast
qed

text \<open>\<^verbatim>\<open>Variant<int, std::string, Logger> v4 = v3;\<close> of \<^verbatim>\<open>main.cpp\<close>, then a string assigned to the copy; and a copy of an empty Variant.\<close>

theorem Variant_copy_is_independent_copy_witness:
  "(\<exists>w'. Variant_copy main_ops main_Ts 1 0 world0 = Inr w' \<and> is_empty (heap w' 1)) \<and>
   (\<exists>w'. Variant_copy main_ops main_Ts 1 0 world_v3 = Inr w' \<and>
         index (heap w' 1) = 2 \<and>
         get main_Ts 2 (heap w' 1) = Inr (Logger_val 3) \<and>
         trace w' = trace world_v3 @
           [Idx_written 1 (- 1), Idx_written 1 (- 1), Constructed 1 2 (Logger_val 3),
            Idx_written 1 2] \<and>
         heap w' 0 = heap world_v3 0 \<and>
         (\<exists>w''. assign_value main_ops main_Ts 1 T_string
                  (Outside (Lvalue (String_val ''x''))) w' = Inr w'' \<and>
                holding main_Ts (heap w'' 0) 2 (Logger_val 3)))"
proof -
  have ne: "(1::nat) \<noteq> 0" by simp
  have d: "distinct main_Ts" by (simp add: main_Ts_def)
  have m: "T_string \<in> set main_Ts" by (simp add: main_Ts_def)
  have e: "is_empty (heap world0 0)"
    by (simp add: is_empty_def world0_def)
  have h: "holding main_Ts (heap world_v3 0) 2 (Logger_val 3)"
    by (simp add: holding_def world_v3_def main_Ts_def eval_nat_numeral)
  have c: "copy_ctor main_ops (main_Ts ! 2) (Logger_val 3) = Logger_val 3"
    by (simp add: main_ops_def)
  have i3: "index (heap world_v3 0) = 2"
    by (simp add: index_def world_v3_def)
  from Variant_copy_is_independent_copy [OF ne d, of world0 main_ops 2 "Logger_val 3"] e
  have empty: "\<exists>w'. Variant_copy main_ops main_Ts 1 0 world0 = Inr w' \<and> is_empty (heap w' 1)"
    by auto
  from Variant_copy_is_independent_copy [OF ne d, of world_v3 main_ops 2 "Logger_val 3"] h
  obtain w' where w': "Variant_copy main_ops main_Ts 1 0 world_v3 = Inr w'"
      "index (heap w' 1) = index (heap world_v3 0)"
      "get main_Ts 2 (heap w' 1) = Inr (copy_ctor main_ops (main_Ts ! 2) (Logger_val 3))"
      "trace w' = trace world_v3 @
         [Idx_written 1 null_type, Idx_written 1 null_type,
          Constructed 1 2 (copy_ctor main_ops (main_Ts ! 2) (Logger_val 3)), Idx_written 1 (int 2)]"
      "heap w' 0 = heap world_v3 0"
      "\<forall>U val. U \<in> set main_Ts \<longrightarrow>
         (\<exists>w''. assign_value main_ops main_Ts 1 U (Outside val) w' = Inr w'' \<and>
                holding main_Ts (heap w'' 0) 2 (Logger_val 3))"
    by blast
  from w'(6) m
  have "\<exists>w''. assign_value main_ops main_Ts 1 T_string (Outside (Lvalue (String_val ''x''))) w' = Inr w'' \<and>
              holding main_Ts (heap w'' 0) 2 (Logger_val 3)"
    by blast
  with w'(1-5) i3 empty show ?thesis unfolding c null_type_def by auto
qed

section \<open>Equality\<close>

text \<open>
  Claim C6. For two Variants of a specialization whose alternatives are all
  equality-comparable, each of them empty or holding a live alternative,
  \<^verbatim>\<open>operator==\<close> returns true exactly when both are empty, or both hold the same
  alternative and \<^verbatim>\<open>operator==\<close> of that alternative holds of the two values. In
  particular it returns false for Variants that hold different alternatives.
\<close>

theorem eq_Variant_characterisation:
  assumes "list_all (is_equality_comparable A) Ts"
    and "is_empty V \<or> holding Ts V i v" and "is_empty W \<or> holding Ts W j u"
  shows "eq_Variant A Ts V W =
           Inr ((is_empty V \<and> is_empty W) \<or>
                (holding Ts V i v \<and> holding Ts W j u \<and> i = j \<and> equals A (Ts ! i) v u)) \<and>
         (holding Ts V i v \<and> holding Ts W j u \<and> i \<noteq> j \<longrightarrow> eq_Variant A Ts V W = Inr False)"
proof -
  have main: "eq_Variant A Ts V W =
           Inr ((is_empty V \<and> is_empty W) \<or>
                (holding Ts V i v \<and> holding Ts W j u \<and> i = j \<and> equals A (Ts ! i) v u))"
  proof (cases "is_empty V")
    case eV: True
    show ?thesis
    proof (cases "is_empty W")
      case True
      with eV assms(1) show ?thesis
        by (simp add: eq_Variant_def is_empty_def)
    next
      case False
      with assms(3) have hW: "holding Ts W j u" by simp
      from eV hW have "type_idx V \<noteq> type_idx W"
        by (simp add: is_empty_def holding_def null_type_def)
      with eV False assms(1) is_empty_not_holding [OF eV, of Ts i v] show ?thesis
        by (simp add: eq_Variant_def)
    qed
  next
    case nV: False
    with assms(2) have hV: "holding Ts V i v" by simp
    show ?thesis
    proof (cases "is_empty W")
      case True
      from True hV have "type_idx V \<noteq> type_idx W"
        by (simp add: is_empty_def holding_def null_type_def)
      with nV True assms(1) is_empty_not_holding [OF True, of Ts j u] show ?thesis
        by (simp add: eq_Variant_def)
    next
      case False
      with assms(3) have hW: "holding Ts W j u" by simp
      show ?thesis
      proof (cases "i = j")
        case True
        with hV hW have same: "type_idx V = type_idx W" "type_idx V \<noteq> null_type"
          "0 \<le> type_idx V" "type_idx V < int (length Ts)" "nat (type_idx V) = i"
          by (simp_all add: holding_def null_type_def)
        from hW True have hW': "holding Ts W i u" by simp
        from same assms(1) compare_table_holding [OF assms(1) hV hW'] nV False hV hW True
        show ?thesis by (simp add: eq_Variant_def)
      next
        case ne: False
        with hV hW have "type_idx V \<noteq> type_idx W" by (simp add: holding_def)
        with assms(1) nV ne show ?thesis by (simp add: eq_Variant_def)
      qed
    qed
  qed
  have "eq_Variant A Ts V W = Inr False" if "holding Ts V i v \<and> holding Ts W j u \<and> i \<noteq> j"
  proof -
    from that have "\<not> is_empty V" using is_empty_not_holding [of V Ts i v] by blast
    with main that show ?thesis by simp
  qed
  with main show ?thesis by blast
qed

text \<open>Two \<^verbatim>\<open>Variant<int, std::string>\<close> holding the same string, and an int against a string.\<close>

theorem eq_Variant_characterisation_witness:
  "eq_Variant main_ops [T_int, T_string]
     \<lparr>type_idx = 1, m_storage = Next (Value (String_val ''hi''))\<rparr>
     \<lparr>type_idx = 1, m_storage = Next (Value (String_val ''hi''))\<rparr> = Inr True \<and>
   eq_Variant main_ops [T_int, T_string]
     \<lparr>type_idx = 0, m_storage = Value (Int_val 1)\<rparr>
     \<lparr>type_idx = 1, m_storage = Next (Value (String_val ''hi''))\<rparr> = Inr False"
proof -
  let ?Ts = "[T_int, T_string]"
  let ?S = "\<lparr>type_idx = 1, m_storage = Next (Value (String_val ''hi''))\<rparr>"
  let ?I = "\<lparr>type_idx = 0, m_storage = Value (Int_val 1)\<rparr>"
  have c: "list_all (is_equality_comparable main_ops) ?Ts"
    by (simp add: main_ops_def)
  have hS: "holding ?Ts ?S 1 (String_val ''hi'')"
    by (simp add: holding_def)
  have hI: "holding ?Ts ?I 0 (Int_val 1)"
    by (simp add: holding_def)
  from hS have dS: "is_empty ?S \<or> holding ?Ts ?S 1 (String_val ''hi'')" by simp
  from hI have dI: "is_empty ?I \<or> holding ?Ts ?I 0 (Int_val 1)" by simp
  from eq_Variant_characterisation [OF c dS dS] hS
  have same: "eq_Variant main_ops ?Ts ?S ?S = Inr True"
    by (simp add: main_ops_def)
  from eq_Variant_characterisation [OF c dI dS] hS hI
  have "eq_Variant main_ops ?Ts ?I ?S = Inr False"
    by (simp add: is_empty_def null_type_def)
  with same show ?thesis by simp
qed

text \<open>
  Claim C8. For a Variant that is empty or holds a live alternative, and a bare value
  \<open>x\<close> of an equality-comparable alternative type \<open>U\<close>, \<^verbatim>\<open>variant == x\<close> returns true
  exactly when the Variant holds alternative \<open>U\<close> and \<^verbatim>\<open>operator==\<close> of \<open>U\<close> holds of
  the held value and \<open>x\<close>; for an empty Variant or another alternative it returns false.
\<close>

theorem eq_value_characterisation:
  assumes "distinct Ts" and "U \<in> set Ts" and "is_equality_comparable A U"
    and "is_empty V \<or> holding Ts V i v"
  shows "eq_value A Ts V U x = Inr (holding Ts V i v \<and> Ts ! i = U \<and> equals A U v x)"
proof -
  let ?idx = "find_idx_by_type U Ts"
  from find_idx_by_type_in [OF assms(2)]
  have range: "0 \<le> ?idx" "nat ?idx < length Ts" "?idx \<noteq> - 1" by auto
  have ty: "find_type_by_idx (nat ?idx) Ts = Some U"
    using range(2) nth_find_idx_by_type [OF assms(2)] by (simp add: find_type_by_idx_nth)
  have unfolded: "eq_value A Ts V U x =
      (if type_idx V \<noteq> ?idx then Inr False
       else case get Ts (nat ?idx) V of Inl e \<Rightarrow> Inl e | Inr y \<Rightarrow> Inr (equals A U y x))"
    using assms(3) range(3) ty
    by (simp add: eq_value_def Let_def holds_alternative_type_def get_type_def)
  show ?thesis
  proof (cases "is_empty V")
    case True
    then have "type_idx V \<noteq> ?idx" using range(1) by (simp add: is_empty_def null_type_def)
    with unfolded is_empty_not_holding [OF True, of Ts i v] show ?thesis by simp
  next
    case False
    with assms(4) have h: "holding Ts V i v" by simp
    then have i: "i < length Ts" and t: "type_idx V = int i" by (simp_all add: holding_def)
    show ?thesis
    proof (cases "Ts ! i = U")
      case True
      with find_idx_by_type_nth [OF assms(1) i] have "?idx = int i" by simp
      with unfolded t get_holding [OF h] h True show ?thesis by simp
    next
      case False
      have "?idx \<noteq> int i"
      proof
        assume "?idx = int i"
        with nth_find_idx_by_type [OF assms(2)] have "Ts ! i = U" by simp
        with False show False by simp
      qed
      with unfolded t False show ?thesis by simp
    qed
  qed
qed

text \<open>A \<^verbatim>\<open>Variant<int, std::string>\<close> holding a string, and one holding an int, against a string.\<close>

theorem eq_value_characterisation_witness:
  "eq_value main_ops [T_int, T_string]
     \<lparr>type_idx = 1, m_storage = Next (Value (String_val ''hi''))\<rparr>
     T_string (String_val ''hi'') = Inr True \<and>
   eq_value main_ops [T_int, T_string]
     \<lparr>type_idx = 0, m_storage = Value (Int_val 1)\<rparr>
     T_string (String_val ''hi'') = Inr False"
proof -
  let ?Ts = "[T_int, T_string]"
  let ?S = "\<lparr>type_idx = 1, m_storage = Next (Value (String_val ''hi''))\<rparr>"
  let ?I = "\<lparr>type_idx = 0, m_storage = Value (Int_val 1)\<rparr>"
  have d: "distinct ?Ts" by simp
  have m: "T_string \<in> set ?Ts" by simp
  have c: "is_equality_comparable main_ops T_string"
    by (simp add: main_ops_def)
  have hS: "holding ?Ts ?S 1 (String_val ''hi'')"
    by (simp add: holding_def)
  have hI: "holding ?Ts ?I 0 (Int_val 1)"
    by (simp add: holding_def)
  from hS have dS: "is_empty ?S \<or> holding ?Ts ?S 1 (String_val ''hi'')" by simp
  from hI have dI: "is_empty ?I \<or> holding ?Ts ?I 0 (Int_val 1)" by simp
  from eq_value_characterisation [OF d m c dS, of "String_val ''hi''"] hS
  have same: "eq_value main_ops ?Ts ?S T_string (String_val ''hi'') = Inr True"
    by (simp add: main_ops_def)
  from eq_value_characterisation [OF d m c dI, of "String_val ''hi''"]
  have "eq_value main_ops ?Ts ?I T_string (String_val ''hi'') = Inr False"
    by simp
  with same show ?thesis by simp
qed

section \<open>The moved-from Variant\<close>

text \<open>
  Claim C10. Let \<open>other\<close> hold alternative \<open>i\<close> and let \<open>m\<close> be the move construction
  of a Variant from \<open>other\<close> or the move assignment of \<open>other\<close> to a different Variant.
  The move returns, it runs no destructor on the storage of \<open>other\<close>, and it leaves
  the discriminant of \<open>other\<close> at the sentinel while the moved-from object is still in
  its storage. Nothing that \<open>other\<close> does afterwards destroys that object: its own
  destructor does nothing at all, and assigning a value or another Variant to it (by
  copy or by move) runs no destructor on its storage.
\<close>

theorem moved_from_source_runs_no_destructor:
  assumes "distinct Ts" and "this \<noteq> other" and "holding Ts (heap w other) i v"
    and "is_empty (heap w this) \<or> holding Ts (heap w this) j u"
    and "m = Variant_move A Ts this other w \<or> m = assign_move A Ts this other w"
  shows "\<exists>w'. m = Inr w' \<and>
               index (heap w' other) = null_type \<and>
               destructor_calls other (trace w') = destructor_calls other (trace w) \<and>
               get Ts i (heap w' other) = Inr (snd (move_ctor A (Ts ! i) v)) \<and>
               Variant_dtor A Ts other w' = Inr w' \<and>
               (\<forall>U val. U \<in> set Ts \<longrightarrow>
                  (\<exists>w''. assign_value A Ts other U (Outside val) w' = Inr w'' \<and>
                         destructor_calls other (trace w'') = destructor_calls other (trace w))) \<and>
               (\<exists>w''. assign_copy A Ts other this w' = Inr w'' \<and>
                      destructor_calls other (trace w'') = destructor_calls other (trace w)) \<and>
               (\<exists>w''. assign_move A Ts other this w' = Inr w'' \<and>
                      destructor_calls other (trace w'') = destructor_calls other (trace w))"
proof -
  from assms(3) have i: "i < length Ts" by (simp add: holding_def)
  let ?x = "fst (move_ctor A (Ts ! i) v)" and ?r = "snd (move_ctor A (Ts ! i) v)"
  have "\<exists>w1. m = Inr (write_idx other null_type
                  (write_idx this (int i)
                     (placement_new this i ?x (leave_moved_from other i ?r (write_idx this null_type w1))))) \<and>
             destructor_calls other (trace w1) = destructor_calls other (trace w)"
  proof (cases "m = Variant_move A Ts this other w")
    case True
    with Variant_move_holding [OF assms(2,3), of A] show ?thesis
      by (auto simp: world_simps destructor_calls_append)
  next
    case False
    with assms(5) have m: "m = assign_move A Ts this other w" by simp
    from assms(4) have wf: "well_formed Ts (heap w this)"
      by (auto intro: well_formed_empty well_formed_holding)
    from destroy_well_formed [OF assms(1) wf, of A]
    obtain w1 es where d: "destroy A Ts this w = Inr w1"
      and tr: "trace w1 = trace w @ es"
      and es: "es = [] \<or> (\<exists>i v. es = [Destructed this i v])"
      and frame: "\<forall>b. b \<noteq> this \<longrightarrow> heap w1 b = heap w b"
      by blast
    from frame assms(2,3) have h1: "holding Ts (heap w1 other) i v" by simp
    from es assms(2) have "destructor_calls other es = []" by auto
    with tr have dc: "destructor_calls other (trace w1) = destructor_calls other (trace w)"
      by (simp add: destructor_calls_append)
    have "m = Inr (write_idx other null_type
                  (write_idx this (int i)
                     (placement_new this i ?x (leave_moved_from other i ?r (write_idx this null_type w1)))))"
      unfolding m by (rule assign_move_after_destroy_holding [OF assms(2) d h1])
    with dc show ?thesis by blast
  qed
  then obtain w1 where run: "m = Inr (write_idx other null_type
                  (write_idx this (int i)
                     (placement_new this i ?x (leave_moved_from other i ?r (write_idx this null_type w1)))))"
    and d1: "destructor_calls other (trace w1) = destructor_calls other (trace w)"
    by blast
  let ?w' = "write_idx other null_type
                  (write_idx this (int i)
                     (placement_new this i ?x (leave_moved_from other i ?r (write_idx this null_type w1))))"
  note st = moved_from_state [OF assms(2) i, of ?x ?r w1]
  have e: "index (heap ?w' other) = null_type"
    using st(1) by (simp add: index_def)
  have d: "destructor_calls other (trace ?w') = destructor_calls other (trace w)"
    using d1 by (simp add: st(4) destructor_calls_append)
  have ne: "other \<noteq> this" using assms(2) by simp
  have later: "\<forall>U val. U \<in> set Ts \<longrightarrow>
                  (\<exists>w''. assign_value A Ts other U (Outside val) ?w' = Inr w'' \<and>
                         destructor_calls other (trace w'') = destructor_calls other (trace w))"
    using assign_value_on_empty [OF _ st(1), of _ Ts A] d by simp
  have cp: "\<exists>w''. assign_copy A Ts other this ?w' = Inr w'' \<and>
                  destructor_calls other (trace w'') = destructor_calls other (trace w)"
    using assign_copy_on_empty [OF ne st(1) st(3), of A] d by simp
  have mv: "\<exists>w''. assign_move A Ts other this ?w' = Inr w'' \<and>
                  destructor_calls other (trace w'') = destructor_calls other (trace w)"
    using assign_move_on_empty [OF ne st(1) st(3), of A] d by simp
  from run e d st(2) Variant_dtor_empty [OF st(1), of A Ts] later cp mv
  show ?thesis by blast
qed

text \<open>\<^verbatim>\<open>v6 = std::move(v5)\<close> and \<^verbatim>\<open>v5 = std::move(v3)\<close> of \<^verbatim>\<open>main.cpp\<close>, from the Variant that holds \<^verbatim>\<open>Logger(3)\<close>.\<close>

theorem moved_from_source_runs_no_destructor_witness:
  "(\<exists>w'. assign_move main_ops main_Ts 1 0 world_v3_v2 = Inr w' \<and>
         index (heap w' 0) = - 1 \<and>
         destructor_calls 0 (trace w') = [] \<and>
         get main_Ts 2 (heap w' 0) = Inr (Logger_val (- 1)) \<and>
         Variant_dtor main_ops main_Ts 0 w' = Inr w' \<and>
         (\<exists>w''. assign_value main_ops main_Ts 0 T_int (Outside (Rvalue (Int_val 7))) w' = Inr w'' \<and>
                destructor_calls 0 (trace w'') = [])) \<and>
   (\<exists>w'. Variant_move main_ops main_Ts 2 0 world_v3_v2 = Inr w' \<and>
         index (heap w' 0) = - 1 \<and>
         destructor_calls 0 (trace w') = [] \<and>
         Variant_dtor main_ops main_Ts 0 w' = Inr w')"
proof -
  have d: "distinct main_Ts" by (simp add: main_Ts_def)
  have ne: "(1::nat) \<noteq> 0" "(2::nat) \<noteq> 0" by simp_all
  have h0: "holding main_Ts (heap world_v3_v2 0) 2 (Logger_val 3)"
    by (simp add: holding_def world_v3_v2_def main_Ts_def eval_nat_numeral)
  have h1: "is_empty (heap world_v3_v2 1) \<or>
            holding main_Ts (heap world_v3_v2 1) 1 (String_val ''hello'')"
    by (simp add: holding_def world_v3_v2_def main_Ts_def)
  have h2: "is_empty (heap world_v3_v2 2) \<or>
            holding main_Ts (heap world_v3_v2 2) 1 (String_val ''hello'')"
    by (simp add: is_empty_def world_v3_v2_def)
  have m: "T_int \<in> set main_Ts" by (simp add: main_Ts_def)
  have none: "destructor_calls 0 (trace world_v3_v2) = []"
    by (simp add: world_v3_v2_def)
  have r: "snd (move_ctor main_ops (main_Ts ! 2) (Logger_val 3)) = Logger_val (- 1)"
    by (simp add: main_ops_def)
  from moved_from_source_runs_no_destructor [OF d ne(1) h0 h1, of _ main_ops] m
  have a: "\<exists>w'. assign_move main_ops main_Ts 1 0 world_v3_v2 = Inr w' \<and>
         index (heap w' 0) = - 1 \<and>
         destructor_calls 0 (trace w') = [] \<and>
         get main_Ts 2 (heap w' 0) = Inr (Logger_val (- 1)) \<and>
         Variant_dtor main_ops main_Ts 0 w' = Inr w' \<and>
         (\<exists>w''. assign_value main_ops main_Ts 0 T_int (Outside (Rvalue (Int_val 7))) w' = Inr w'' \<and>
                destructor_calls 0 (trace w'') = [])"
    unfolding none r null_type_def by blast
  from moved_from_source_runs_no_destructor [OF d ne(2) h0 h2, of _ main_ops]
  have "\<exists>w'. Variant_move main_ops main_Ts 2 0 world_v3_v2 = Inr w' \<and>
         index (heap w' 0) = - 1 \<and>
         destructor_calls 0 (trace w') = [] \<and>
         Variant_dtor main_ops main_Ts 0 w' = Inr w'"
    unfolding none null_type_def by blast
  with a show ?thesis by simp
qed

section \<open>The order of discriminant writes, constructions and destructions\<close>




section \<open>\<^verbatim>\<open>holds_alternative\<close> and \<^verbatim>\<open>index\<close>\<close>

text \<open>
  Claim C9 says that \<^verbatim>\<open>holds_alternative<i>()\<close> is true exactly when the discriminant
  equals \<open>i\<close>. On a default-constructed, empty Variant the discriminant is the
  sentinel \<open>-1\<close>, and \<^verbatim>\<open>holds_alternative<18446744073709551615>()\<close> returns true: the
  comparison converts the sentinel to \<^verbatim>\<open>size_t\<close>. The lemmas
  \<open>holds_alternative_in_range\<close> and \<open>holds_alternative_type_iff\<close> above give the rest of
  the claim: for every index below \<open>2^63\<close> the result is true exactly when the
  discriminant is that index, and the overload by type is true exactly when the type
  is in the list and the discriminant is its index, so false for a type that is not
  in the list.
\<close>

theorem holds_alternative_of_size_max_on_empty:
  "holds_alternative (- 1) (heap (Variant_default 0 world0) 0) \<and>
   index (heap (Variant_default 0 world0) 0) = - 1 \<and>
   uint (- 1 :: 64 word) = 18446744073709551615 \<and>
   index (heap (Variant_default 0 world0) 0) \<noteq> uint (- 1 :: 64 word)"
  by (simp add: holds_alternative_def index_def Variant_default_def init_members_def
      null_type_def unsigned_minus_1_eq_mask mask_eq_exp_minus_1)

end
